theory Spec2Isabelle
  imports Complex_Main "HOL-Library.Sublist" "HOL-Library.Log_Nat"
begin

section \<open>Data model\<close>

text \<open>
  The client-side upload orchestrator of \<^verbatim>\<open>src/hooks/use-file-upload.ts\<close>.
  JavaScript strings are modelled as \<^typ>\<open>string\<close>; the numbers the hook stores
  (progress, sizes, HTTP status codes) are integers.  An optional property is an
  \<^typ>\<open>'a option\<close>, \<open>None\<close> standing for \<^verbatim>\<open>undefined\<close> or \<^verbatim>\<open>null\<close>.
\<close>

datatype UploadStatus = Queued | Signing | Uploading | Success | Error

text \<open>
  The part of a browser \<^verbatim>\<open>File\<close> the hook reads: \<^verbatim>\<open>name\<close>, \<^verbatim>\<open>type\<close>, \<^verbatim>\<open>size\<close>,
  and whether \<^verbatim>\<open>typeof file.stream === "function"\<close>.
\<close>

record File =
  file_name :: string
  file_type :: string
  file_size :: nat
  file_has_stream :: bool

record UploadItem =
  item_id :: string
  item_file :: File
  previewUrl :: "string option"
  progress :: int
  status :: UploadStatus
  error :: "string option"
  publicUrl :: "string option"
  objectName :: "string option"

record UploadedFile =
  uf_objectName :: string
  uf_publicUrl :: string
  uf_fileName :: string
  uf_contentType :: string
  uf_size :: nat

definition DEFAULT_CONTENT_TYPE :: string where
  "DEFAULT_CONTENT_TYPE = ''application/octet-stream''"

text \<open>JavaScript truthiness of a \<^verbatim>\<open>string | null\<close> value: the empty string is falsy.\<close>

fun truthy :: "string option \<Rightarrow> bool" where
  "truthy None = False"
| "truthy (Some s) = (s \<noteq> [])"

text \<open>\<^verbatim>\<open>a || b\<close> on strings.\<close>

definition or_else :: "string \<Rightarrow> string \<Rightarrow> string" where
  "or_else a b = (if a = [] then b else a)"

section \<open>The keyed-update primitive\<close>

text \<open>
  \<^verbatim>\<open>setItems((current) => current.map((item) => (item.id === id ? updater(item) : item)))\<close>
\<close>

definition updateItem ::
  "string \<Rightarrow> (UploadItem \<Rightarrow> UploadItem) \<Rightarrow> UploadItem list \<Rightarrow> UploadItem list" where
  "updateItem i updater current =
     map (\<lambda>item. if item_id item = i then updater item else item) current"

section \<open>Thrown values, JSON bodies and HTTP responses\<close>

text \<open>
  A thrown JavaScript value is either an \<^verbatim>\<open>Error\<close> instance, of which only the message
  is read, or some other value.
\<close>

datatype js_thrown = JsError string | JsOther

datatype json =
    JNull
  | JBool bool
  | JNum int
  | JStr string
  | JArr "json list"
  | JObj "(string \<times> json) list"

text \<open>
  A \<^verbatim>\<open>Response\<close>: its status line and what \<^verbatim>\<open>await response.json()\<close> gives, which
  throws when the body is not JSON.
\<close>

record Response =
  resp_status :: nat
  resp_statusText :: string
  resp_json :: "js_thrown + json"

definition resp_ok :: "Response \<Rightarrow> bool" where
  "resp_ok r = (200 \<le> resp_status r \<and> resp_status r \<le> 299)"

datatype fetch_result = FetchThrows js_thrown | FetchResponse Response

text \<open>
  Reading a property of a parsed JSON value. A later duplicate key wins in
  \<^verbatim>\<open>JSON.parse\<close>; reading a property of \<^verbatim>\<open>null\<close> throws a \<^verbatim>\<open>TypeError\<close>; numbers,
  booleans, strings and arrays have no property of the names read here.
\<close>

fun get_prop :: "json \<Rightarrow> string \<Rightarrow> js_thrown + json option" where
  "get_prop JNull k = Inl (JsError ''Cannot read properties of null'')"
| "get_prop (JObj kvs) k = Inr (map_of (rev kvs) k)"
| "get_prop (JBool b) k = Inr None"
| "get_prop (JNum n) k = Inr None"
| "get_prop (JStr s) k = Inr None"
| "get_prop (JArr xs) k = Inr None"

text \<open>\<^verbatim>\<open>Array.prototype.join\<close>\<close>

fun join :: "string \<Rightarrow> string list \<Rightarrow> string" where
  "join sep [] = []"
| "join sep [x] = x"
| "join sep (x # y # ys) = x @ sep @ join sep (y # ys)"

text \<open>
  \<^verbatim>\<open>String.prototype.trim\<close> removes white space and line terminators at both ends.
  A \<^typ>\<open>char\<close> stands for a code unit below 256, where these are the tab, line feed,
  vertical tab, form feed, carriage return, space and no-break space.
\<close>

definition is_js_space :: "char \<Rightarrow> bool" where
  "is_js_space c = (of_char c \<in> {9, 10, 11, 12, 13, 32, 160 :: nat})"

definition trim :: "string \<Rightarrow> string" where
  "trim s = rev (dropWhile is_js_space (rev (dropWhile is_js_space s)))"

text \<open>The decimal rendering of a non-negative integer in a template literal.\<close>

function show_nat :: "nat \<Rightarrow> string" where
  "show_nat n =
     (if n < 10 then [char_of (48 + n)]
      else show_nat (n div 10) @ [char_of (48 + n mod 10)])"
  by pat_completeness auto
termination
  by (relation "measure (\<lambda>n. n)") auto

declare show_nat.simps [simp del]

text \<open>
  \<^verbatim>\<open>ToString\<close> of a parsed JSON value: a string is itself, an array is its items joined
  with commas (\<^verbatim>\<open>null\<close> items giving the empty string), any other object is
  \<^verbatim>\<open>[object Object]\<close>.
\<close>

definition show_int :: "int \<Rightarrow> string" where
  "show_int n = (if n < 0 then CHR ''-'' # show_nat (nat (- n)) else show_nat (nat n))"

fun js_to_string :: "json \<Rightarrow> string" where
  "js_to_string JNull = ''null''"
| "js_to_string (JBool b) = (if b then ''true'' else ''false'')"
| "js_to_string (JNum n) = show_int n"
| "js_to_string (JStr s) = s"
| "js_to_string (JArr xs) =
     join '','' (map (\<lambda>x. case x of JNull \<Rightarrow> [] | _ \<Rightarrow> js_to_string x) xs)"
| "js_to_string (JObj kvs) = ''[object Object]''"

section \<open>Grant requester\<close>

definition synthesized :: "Response \<Rightarrow> string" where
  "synthesized response =
     ''Request failed with '' @ show_nat (resp_status response) @ '' '' @ resp_statusText response"

text \<open>
  \<^verbatim>\<open>readApiError\<close>: every failure inside the \<^verbatim>\<open>try\<close> block (the body is not JSON,
  the body is \<^verbatim>\<open>null\<close>) is swallowed and the synthesized message is returned.
\<close>

definition readApiError :: "Response \<Rightarrow> string" where
  "readApiError response =
     (case resp_json response of
        Inl e \<Rightarrow> synthesized response
      | Inr data \<Rightarrow>
          (case get_prop data ''error'' of
             Inl e \<Rightarrow> synthesized response
           | Inr (Some (JStr s)) \<Rightarrow>
               if length (trim s) > 0 then s else synthesized response
           | Inr _ \<Rightarrow> synthesized response))"

text \<open>
  The cast \<^verbatim>\<open>as UploadSignResponse\<close> checks nothing: the grant is the parsed body as it
  came. \<open>str_prop\<close> reads a property that the hook later tests with
  \<^verbatim>\<open>typeof ... === "string"\<close>; it is present only when the body has it as a string.
\<close>

fun str_prop :: "json \<Rightarrow> string \<Rightarrow> string option" where
  "str_prop (JObj kvs) k = (case map_of (rev kvs) k of Some (JStr s) \<Rightarrow> Some s | _ \<Rightarrow> None)"
| "str_prop JNull k = None"
| "str_prop (JBool b) k = None"
| "str_prop (JNum n) k = None"
| "str_prop (JStr s) k = None"
| "str_prop (JArr xs) k = None"

text \<open>
  \<^verbatim>\<open>requestSignedUrl\<close>. The outcome of the one \<^verbatim>\<open>fetch\<close> to the grant endpoint is the
  argument \<open>res\<close>; the request itself (file name, content type, identity header) does not
  influence what the function does with that outcome.
\<close>

definition requestSignedUrl :: "File \<Rightarrow> string \<Rightarrow> fetch_result \<Rightarrow> js_thrown + json" where
  "requestSignedUrl f authStubHeader res =
     (case res of
        FetchThrows e \<Rightarrow> Inl e
      | FetchResponse response \<Rightarrow>
          if \<not> resp_ok response then Inl (JsError (readApiError response))
          else (case resp_json response of
                  Inl e \<Rightarrow> Inl e
                | Inr data \<Rightarrow> Inr data))"

section \<open>Transfer executor\<close>

text \<open>
  \<^verbatim>\<open>new Headers(init)\<close> throws a \<^verbatim>\<open>TypeError\<close> unless \<open>init\<close> is \<^verbatim>\<open>undefined\<close>, an object
  whose keys are header names and whose values, as strings, are header values, or an
  array of two-item arrays of a name and a value. A header name is a non-empty token.
  A value is stripped of leading and trailing tabs, spaces, line feeds and carriage
  returns and must then hold no NUL, line feed or carriage return. The result says only
  whether the constructor throws; the texts of the engine's own errors are not fixed by
  the language and are given here as one engine words them.
\<close>

definition is_tchar :: "char \<Rightarrow> bool" where
  "is_tchar c =
     (c \<in> set ''!#$%&*+-.^_`|~0123456789abcdefghijklmnopqrstuvwxyzABCDEFGHIJKLMNOPQRSTUVWXYZ''
      \<or> of_char c = (39 :: nat))"

definition header_name_ok :: "string \<Rightarrow> bool" where
  "header_name_ok n = (n \<noteq> [] \<and> list_all is_tchar n)"

definition is_http_space :: "char \<Rightarrow> bool" where
  "is_http_space c = (of_char c \<in> {9, 10, 13, 32 :: nat})"

definition header_value_ok :: "string \<Rightarrow> bool" where
  "header_value_ok v =
     list_all (\<lambda>c. of_char c \<notin> {0, 10, 13 :: nat})
       (rev (dropWhile is_http_space (rev (dropWhile is_http_space v))))"

fun header_pair_ok :: "json \<Rightarrow> bool" where
  "header_pair_ok (JArr [n, v]) =
     (header_name_ok (js_to_string n) \<and> header_value_ok (js_to_string v))"
| "header_pair_ok other = False"

definition Headers_init :: "json option \<Rightarrow> js_thrown option" where
  "Headers_init init =
     (case init of
        None \<Rightarrow> None
      | Some (JObj kvs) \<Rightarrow>
          if list_all
               (\<lambda>k. header_name_ok k \<and>
                  (case map_of (rev kvs) k of
                     Some v \<Rightarrow> header_value_ok (js_to_string v)
                   | None \<Rightarrow> True))
               (map fst kvs)
          then None
          else Some (JsError ''Failed to construct Headers: invalid name or value'')
      | Some (JArr xs) \<Rightarrow>
          if list_all header_pair_ok xs then None
          else Some (JsError ''Failed to construct Headers: invalid name or value'')
      | Some other \<Rightarrow>
          Some (JsError ''Failed to construct Headers: the provided value is not a header list''))"

text \<open>
  JavaScript numbers are binary64 floating-point numbers; a finite one is a rational
  \<open>m * 2 ^ e\<close> whose significand \<open>m\<close> has at most 53 bits. \<open>fl\<close> rounds a rational to the
  nearest such number, a tie going to the even significand, as the division and the
  multiplication of JavaScript do with their exact result. The exponent is not bounded
  here: byte counts and file sizes are integers below \<open>2 ^ 53\<close>, and no quotient or
  product of this program leaves the range of the normal numbers.
\<close>

definition ilog2 :: "rat \<Rightarrow> int" where
  "ilog2 x = (if 1 \<le> x then bitlen \<lfloor>x\<rfloor> - 1 else - bitlen (\<lceil>1 / x\<rceil> - 1))"

definition rne :: "rat \<Rightarrow> int" where
  "rne y =
     (if y - of_int \<lfloor>y\<rfloor> < 1 / 2 then \<lfloor>y\<rfloor>
      else if 1 / 2 < y - of_int \<lfloor>y\<rfloor> then \<lfloor>y\<rfloor> + 1
      else if even \<lfloor>y\<rfloor> then \<lfloor>y\<rfloor> else \<lfloor>y\<rfloor> + 1)"

definition fl :: "rat \<Rightarrow> rat" where
  "fl x =
     (if x = 0 then 0
      else sgn x * (of_int (rne (\<bar>x\<bar> / 2 powi (ilog2 \<bar>x\<bar> - 52))) * 2 powi (ilog2 \<bar>x\<bar> - 52)))"

text \<open>
  \<^verbatim>\<open>Math.round\<close> gives the nearest integer, a half going up.
\<close>

definition js_round :: "rat \<Rightarrow> int" where
  "js_round x = \<lfloor>x + 1 / 2\<rfloor>"

text \<open>
  \<^verbatim>\<open>Math.min(99, Math.max(1, Math.round((uploadedBytes / file.size) * 100)))\<close>
\<close>

definition percent :: "nat \<Rightarrow> nat \<Rightarrow> int" where
  "percent uploadedBytes totalBytes =
     min 99 (max 1 (js_round (fl (fl (of_nat uploadedBytes / of_nat totalBytes) * 100))))"

text \<open>
  The \<^verbatim>\<open>pull\<close> callback of the tracked stream, once per chunk read: the byte counter
  grows by the chunk's length and the percentage is reported. The result lists the
  values passed to \<^verbatim>\<open>onProgress\<close>, in order.
\<close>

fun pull :: "nat \<Rightarrow> nat \<Rightarrow> nat list \<Rightarrow> int list" where
  "pull totalBytes uploadedBytes [] = []"
| "pull totalBytes uploadedBytes (byteLength # rest) =
     percent (uploadedBytes + byteLength) totalBytes # pull totalBytes (uploadedBytes + byteLength) rest"

text \<open>
  What the environment decides during one transfer. \<open>chunks\<close> are the byte lengths of all
  the chunks that the tracked stream ever reads, in order. The stream is pulled by its
  consumer and, up to its high-water mark, by itself, and nothing in the function
  cancels the reader: a read and its report can come at any time after the stream was
  made, also after the request has settled and after the function has returned or
  thrown. So the environment also says where the reports fall: \<open>read_early\<close> of them come
  before the streamed \<^verbatim>\<open>fetch\<close> settles, \<open>read_during_fallback\<close> more before the whole-file
  \<^verbatim>\<open>fetch\<close> of the \<^verbatim>\<open>catch\<close> block settles, \<open>read_before_update\<close> more after the function
  has ended and before its caller issues its next update, and the rest after that.
  The two \<^verbatim>\<open>fetch\<close> outcomes are the environment's as well.
\<close>

record transfer_env =
  chunks :: "nat list"
  read_early :: nat
  read_during_fallback :: nat
  read_before_update :: nat
  streamed_fetch :: fetch_result
  buffered_fetch :: fetch_result

datatype put_kind = StreamedBody | WholeFile

text \<open>
  One run of the transfer: the requests issued, the values passed to \<^verbatim>\<open>onProgress\<close> until
  the function returns or throws, the values passed to it after that, and whether the
  function returned or threw. Each request is recorded by the kind of its body only; URL,
  method and headers go into the request and have no part in what the function does with
  the answer. \<^verbatim>\<open>headers.set("Content-Type", file.type || ...)\<close> does not throw: the type of
  a \<^verbatim>\<open>File\<close> holds printable ASCII only.
\<close>

record transfer_run =
  requests :: "put_kind list"
  reported :: "int list"
  late :: "int list"
  outcome :: "js_thrown + unit"

definition gcs_failed :: "nat \<Rightarrow> js_thrown" where
  "gcs_failed st = JsError (''GCS upload failed with '' @ show_nat st)"

definition uploadFileDirectToGcs :: "File \<Rightarrow> json \<Rightarrow> transfer_env \<Rightarrow> transfer_run" where
  "uploadFileDirectToGcs f signed env =
     (case get_prop signed ''headers'' of
        Inl e \<Rightarrow> \<lparr>requests = [], reported = [], late = [], outcome = Inl e\<rparr>
      | Inr init \<Rightarrow>
     (case Headers_init init of
        Some e \<Rightarrow> \<lparr>requests = [], reported = [], late = [], outcome = Inl e\<rparr>
      | None \<Rightarrow>
     (if file_size f = 0 \<or> \<not> file_has_stream f then
        (case buffered_fetch env of
           FetchThrows e \<Rightarrow>
             \<lparr>requests = [WholeFile], reported = [], late = [], outcome = Inl e\<rparr>
         | FetchResponse fallbackResponse \<Rightarrow>
             if \<not> resp_ok fallbackResponse then
               \<lparr>requests = [WholeFile], reported = [], late = [],
                outcome = Inl (gcs_failed (resp_status fallbackResponse))\<rparr>
             else \<lparr>requests = [WholeFile], reported = [100], late = [], outcome = Inr ()\<rparr>)
      else
        (let seen = pull (file_size f) 0 (chunks env);
             early = take (read_early env) seen;
             after_settle = drop (read_early env) seen
         in case streamed_fetch env of
           FetchThrows e \<Rightarrow>
             (let meanwhile = take (read_during_fallback env) after_settle;
                  after_fallback = drop (read_during_fallback env) after_settle
              in case buffered_fetch env of
                FetchThrows e' \<Rightarrow>
                  \<lparr>requests = [StreamedBody, WholeFile], reported = early @ meanwhile,
                   late = after_fallback, outcome = Inl e'\<rparr>
              | FetchResponse fallbackResponse \<Rightarrow>
                  if \<not> resp_ok fallbackResponse then
                    \<lparr>requests = [StreamedBody, WholeFile], reported = early @ meanwhile,
                     late = after_fallback,
                     outcome = Inl (gcs_failed (resp_status fallbackResponse))\<rparr>
                  else
                    \<lparr>requests = [StreamedBody, WholeFile], reported = early @ meanwhile @ [100],
                     late = after_fallback, outcome = Inr ()\<rparr>)
         | FetchResponse response \<Rightarrow>
             if \<not> resp_ok response then
               \<lparr>requests = [StreamedBody], reported = early, late = after_settle,
                outcome = Inl (gcs_failed (resp_status response))\<rparr>
             else
               \<lparr>requests = [StreamedBody], reported = early @ [100], late = after_settle,
                outcome = Inr ()\<rparr>))))"

section \<open>The per-item worker\<close>

text \<open>
  The five updater closures that \<^verbatim>\<open>uploadSingle\<close> passes to \<^verbatim>\<open>updateItem\<close>, as data:
  the transition to \<^verbatim>\<open>signing\<close>, the transition to \<^verbatim>\<open>uploading\<close> with the grant, the
  progress callback, the transition to \<^verbatim>\<open>success\<close> and the one in the \<^verbatim>\<open>catch\<close> block.
  What a closure stores from the grant matters only where it is a string. A closure
  that reads a property of a \<^verbatim>\<open>null\<close> grant throws when it is run on an item; \<open>throws_on\<close>
  tells these closures, and \<open>apply_updater\<close> is what the others do.
\<close>

datatype updater =
    ToSigning
  | ToUploading json
  | OnProgress int
  | ToSuccess json
  | ToError string

fun apply_updater :: "updater \<Rightarrow> UploadItem \<Rightarrow> UploadItem" where
  "apply_updater ToSigning current =
     current\<lparr>status := Signing, progress := max (progress current) 5, error := None\<rparr>"
| "apply_updater (ToUploading signed) current =
     current\<lparr>status := Uploading, progress := max (progress current) 10,
       publicUrl := str_prop signed ''publicUrl'', objectName := str_prop signed ''objectName''\<rparr>"
| "apply_updater (OnProgress p) current =
     current\<lparr>status := Uploading, progress := p\<rparr>"
| "apply_updater (ToSuccess signed) current =
     current\<lparr>status := Success, progress := 100,
       publicUrl := str_prop signed ''publicUrl'', objectName := str_prop signed ''objectName'',
       error := None\<rparr>"
| "apply_updater (ToError message) current =
     current\<lparr>status := Error, error := Some message\<rparr>"

fun throws_on :: "updater \<Rightarrow> bool" where
  "throws_on (ToUploading signed) = (signed = JNull)"
| "throws_on (ToSuccess signed) = (signed = JNull)"
| "throws_on ToSigning = False"
| "throws_on (OnProgress p) = False"
| "throws_on (ToError message) = False"

fun is_ToError :: "updater \<Rightarrow> bool" where
  "is_ToError (ToError message) = True"
| "is_ToError ToSigning = False"
| "is_ToError (ToUploading signed) = False"
| "is_ToError (OnProgress p) = False"
| "is_ToError (ToSuccess signed) = False"

text \<open>\<^verbatim>\<open>error instanceof Error ? error.message : "Upload failed"\<close>\<close>

fun message_of :: "js_thrown \<Rightarrow> string" where
  "message_of (JsError m) = m"
| "message_of JsOther = ''Upload failed''"

record upload_env =
  grant_fetch :: fetch_result
  transfer :: transfer_env

text \<open>
  The body of the \<^verbatim>\<open>try\<close> block of \<^verbatim>\<open>uploadSingle\<close>: the keyed updates issued until the
  block ends, in order, and whether it ran to its end or threw. Among them are the
  progress updates of the chunk reports that come while the transfer runs and of those
  that come between the end of the transfer and the next update of the worker.
\<close>

definition try_block :: "UploadItem \<Rightarrow> string \<Rightarrow> upload_env \<Rightarrow> updater list \<times> (js_thrown + unit)" where
  "try_block item authStubHeader env =
     (case requestSignedUrl (item_file item) authStubHeader (grant_fetch env) of
        Inl e \<Rightarrow> ([], Inl e)
      | Inr signed \<Rightarrow>
          (let run = uploadFileDirectToGcs (item_file item) signed (transfer env);
               waiting = take (read_before_update (transfer env)) (late run)
           in case outcome run of
             Inl e \<Rightarrow> (ToUploading signed # map OnProgress (reported run @ waiting), Inl e)
           | Inr u \<Rightarrow>
               (ToUploading signed # map OnProgress (reported run @ waiting) @ [ToSuccess signed],
                Inr ())))"

text \<open>
  The progress updates of the chunk reports that come after the worker has issued its
  last update: the callback is still the one \<^verbatim>\<open>uploadSingle\<close> made.
\<close>

definition stale_updates :: "UploadItem \<Rightarrow> string \<Rightarrow> upload_env \<Rightarrow> updater list" where
  "stale_updates item authStubHeader env =
     (case requestSignedUrl (item_file item) authStubHeader (grant_fetch env) of
        Inl e \<Rightarrow> []
      | Inr signed \<Rightarrow>
          map OnProgress
            (drop (read_before_update (transfer env))
               (late (uploadFileDirectToGcs (item_file item) signed (transfer env)))))"

text \<open>
  \<^verbatim>\<open>uploadSingle\<close>: every update is \<^verbatim>\<open>updateItem(item.id, ...)\<close>, so the result lists the
  updaters only, in the order in which they are issued; the second component is how the
  returned promise settles.
\<close>

definition uploadSingle :: "UploadItem \<Rightarrow> string \<Rightarrow> upload_env \<Rightarrow> updater list \<times> (js_thrown + unit)" where
  "uploadSingle item authStubHeader env =
     (case try_block item authStubHeader env of
        (updates, Inl e) \<Rightarrow>
          (ToSigning # updates @ [ToError (message_of e)] @ stale_updates item authStubHeader env,
           Inr ())
      | (updates, Inr u) \<Rightarrow>
          (ToSigning # updates @ stale_updates item authStubHeader env, Inr ()))"

section \<open>The queue store and the user's actions\<close>

text \<open>
  The hook's state: the item list, the map from item id to preview URL, and the URLs
  passed to \<^verbatim>\<open>URL.revokeObjectURL\<close> so far, in order.
\<close>

record hook_state =
  items :: "UploadItem list"
  previewMap :: "string \<rightharpoonup> string"
  revoked :: "string list"

text \<open>The state at mount: \<^verbatim>\<open>useState([])\<close>, an empty map, nothing revoked.\<close>

definition hook_init :: hook_state where
  "hook_init = \<lparr>items = [], previewMap = Map.empty, revoked = []\<rparr>"

text \<open>
  One new item: \<open>i\<close> is what \<^verbatim>\<open>createUploadId()\<close> returned and \<open>url\<close> what
  \<^verbatim>\<open>URL.createObjectURL(file)\<close> returns, which is called for image files only.
\<close>

definition new_item :: "File \<times> string \<times> string \<Rightarrow> UploadItem" where
  "new_item inp =
     (case inp of (f, i, url) \<Rightarrow>
        \<lparr>item_id = i, item_file = f,
         previewUrl = (if prefix ''image/'' (file_type f) then Some url else None),
         progress = 0, status = Queued, error = None, publicUrl = None, objectName = None\<rparr>)"

fun set_previews :: "(string \<rightharpoonup> string) \<Rightarrow> UploadItem list \<Rightarrow> (string \<rightharpoonup> string)" where
  "set_previews m [] = m"
| "set_previews m (item # rest) =
     (case previewUrl item of
        Some url \<Rightarrow> if url \<noteq> [] then set_previews (m(item_id item \<mapsto> url)) rest
                     else set_previews m rest
      | None \<Rightarrow> set_previews m rest)"

text \<open>
  \<^verbatim>\<open>addFiles\<close>: the new state and the items handed to \<^verbatim>\<open>startUploads\<close>.
\<close>

definition addFiles :: "hook_state \<Rightarrow> (File \<times> string \<times> string) list \<Rightarrow> hook_state \<times> UploadItem list" where
  "addFiles s inputFiles =
     (if length inputFiles = 0 then (s, [])
      else
        (let newItems = map new_item inputFiles in
         (s\<lparr>items := newItems @ items s,
            previewMap := set_previews (previewMap s) newItems\<rparr>, newItems)))"

definition removeItem :: "hook_state \<Rightarrow> string \<Rightarrow> hook_state" where
  "removeItem s i =
     (let current = items s;
          s' = (case find (\<lambda>item. item_id item = i) current of
                  Some match \<Rightarrow>
                    (case previewUrl match of
                       Some url \<Rightarrow>
                         if url \<noteq> [] then
                           s\<lparr>revoked := revoked s @ [url], previewMap := (previewMap s)(i := None)\<rparr>
                         else s
                     | None \<Rightarrow> s)
                | None \<Rightarrow> s)
      in s'\<lparr>items := filter (\<lambda>item. item_id item \<noteq> i) current\<rparr>)"

definition finished :: "UploadItem \<Rightarrow> bool" where
  "finished item = (status item = Success \<or> status item = Error)"

text \<open>The \<^verbatim>\<open>for (const item of current)\<close> loop of \<^verbatim>\<open>clearFinished\<close>.\<close>

fun release_finished :: "hook_state \<Rightarrow> UploadItem list \<Rightarrow> hook_state" where
  "release_finished s [] = s"
| "release_finished s (item # rest) =
     (if finished item \<and> truthy (previewUrl item) then
        (case previewUrl item of
           Some url \<Rightarrow>
             release_finished
               (s\<lparr>revoked := revoked s @ [url],
                  previewMap := (previewMap s)(item_id item := None)\<rparr>) rest
         | None \<Rightarrow> release_finished s rest)
      else release_finished s rest)"

definition clearFinished :: "hook_state \<Rightarrow> hook_state" where
  "clearFinished s =
     (let current = items s;
          nextItems = filter (\<lambda>item. status item \<noteq> Success \<and> status item \<noteq> Error) current
      in (release_finished s current)\<lparr>items := nextItems\<rparr>)"

section \<open>Result reconciler\<close>

fun as_uploaded :: "UploadItem \<Rightarrow> UploadedFile option" where
  "as_uploaded item =
     (if status item = Success then
        (case (publicUrl item, objectName item) of
           (Some url, Some n) \<Rightarrow>
             Some \<lparr>uf_objectName = n, uf_publicUrl = url,
                   uf_fileName = file_name (item_file item),
                   uf_contentType = or_else (file_type (item_file item)) DEFAULT_CONTENT_TYPE,
                   uf_size = file_size (item_file item)\<rparr>
         | _ \<Rightarrow> None)
      else None)"

text \<open>The \<^verbatim>\<open>filter\<close> and \<^verbatim>\<open>map\<close> of the \<^verbatim>\<open>uploadedFiles\<close> memo, in queue order.\<close>

definition uploadedFiles :: "UploadItem list \<Rightarrow> UploadedFile list" where
  "uploadedFiles its = List.map_filter as_uploaded its"

definition uploadedSignature :: "UploadedFile list \<Rightarrow> string" where
  "uploadedSignature files = join ''::'' (map uf_objectName files)"

text \<open>
  The effect that notifies the observer: \<open>uploadedSignatureRef\<close> is the reference cell
  (initially the empty string) and \<open>notified\<close> the arguments of the calls of
  \<^verbatim>\<open>onUploadedFilesChange\<close> so far. \<open>has_callback\<close> says whether the option is set at
  this evaluation.
\<close>

record reconciler =
  uploadedSignatureRef :: string
  notified :: "UploadedFile list list"

definition reconciler_init :: reconciler where
  "reconciler_init = \<lparr>uploadedSignatureRef = [], notified = []\<rparr>"

definition notify_effect :: "bool \<Rightarrow> reconciler \<Rightarrow> UploadItem list \<Rightarrow> reconciler" where
  "notify_effect has_callback r its =
     (if \<not> has_callback then r
      else if uploadedSignatureRef r = uploadedSignature (uploadedFiles its) then r
      else \<lparr>uploadedSignatureRef = uploadedSignature (uploadedFiles its),
            notified = notified r @ [uploadedFiles its]\<rparr>)"

section \<open>Worker pool scheduler\<close>

text \<open>
  \<^verbatim>\<open>runUploadWorkers\<close> starts its workers one after the other; each is an asynchronous
  loop that runs without interruption up to its next \<^verbatim>\<open>await\<close>. A worker is therefore
  either not started yet, waiting for the promise of \<^verbatim>\<open>worker(entries[i])\<close>, returned
  from its loop, or rejected because that promise was rejected. Besides the shared
  cursor \<open>nextIndex\<close> the state records what happened: which worker claimed which index,
  on which indices \<^verbatim>\<open>worker\<close> was called, and which of these calls have settled.
  An entry \<open>None\<close> is an \<^verbatim>\<open>undefined\<close> element, which the loop skips.
\<close>

datatype worker_state = NotStarted | Awaiting nat | Returned | Rejected

record pool =
  nextIndex :: nat
  workers :: "worker_state list"
  claimed :: "(nat \<times> nat) list"
  invoked :: "nat list"
  settled :: "nat list"

text \<open>
  The loop body of worker \<open>w\<close>, from the loop test up to the next \<^verbatim>\<open>await\<close> or to the end
  of the loop.
\<close>

function advance :: "'a option list \<Rightarrow> nat \<Rightarrow> pool \<Rightarrow> pool" where
  "advance entries w p =
     (if nextIndex p < length entries then
        (let current = entries ! nextIndex p;
             p' = p\<lparr>nextIndex := nextIndex p + 1, claimed := claimed p @ [(w, nextIndex p)]\<rparr>
         in case current of
              None \<Rightarrow> advance entries w p'
            | Some entry \<Rightarrow>
                p'\<lparr>workers := (workers p')[w := Awaiting (nextIndex p)],
                   invoked := invoked p' @ [nextIndex p]\<rparr>)
      else p\<lparr>workers := (workers p)[w := Returned]\<rparr>)"
  by pat_completeness auto
termination
  by (relation "measure (\<lambda>(entries, w, p). length entries - nextIndex p)") auto

declare advance.simps [simp del]

text \<open>
  The promise that worker \<open>w\<close> waits for settles; nothing happens when \<open>w\<close> is not waiting.
  When it is fulfilled the worker goes on with its loop, when it is rejected the loop
  ends with that rejection.
\<close>

definition settle :: "'a option list \<Rightarrow> pool \<Rightarrow> nat \<times> bool \<Rightarrow> pool" where
  "settle entries p ev =
     (case ev of (w, fulfilled) \<Rightarrow>
        if w < length (workers p) then
          (case workers p ! w of
             Awaiting i \<Rightarrow>
               if fulfilled then advance entries w (p\<lparr>settled := settled p @ [i]\<rparr>)
               else p\<lparr>settled := settled p @ [i], workers := (workers p)[w := Rejected]\<rparr>
           | NotStarted \<Rightarrow> p
           | Returned \<Rightarrow> p
           | Rejected \<Rightarrow> p)
        else p)"

text \<open>
  \<^verbatim>\<open>Array.from({ length: workers }, async () => ...)\<close> runs each worker up to its first
  \<^verbatim>\<open>await\<close>. The configured concurrency is an integer.
\<close>

definition start :: "'a option list \<Rightarrow> int \<Rightarrow> pool" where
  "start entries concurrency =
     (let n = nat (max 1 (min concurrency (int (length entries))))
      in foldl (\<lambda>p w. advance entries w p)
           \<lparr>nextIndex = 0, workers = replicate n NotStarted, claimed = [], invoked = [],
            settled = []\<rparr>
           [0..<n])"

text \<open>
  The pool after the promises settle as the schedule says: each entry names a worker
  and whether the promise it waits for is fulfilled.
\<close>

definition runUploadWorkers :: "'a option list \<Rightarrow> int \<Rightarrow> (nat \<times> bool) list \<Rightarrow> pool" where
  "runUploadWorkers entries concurrency schedule =
     foldl (settle entries) (start entries concurrency) schedule"

text \<open>The promise returned by \<^verbatim>\<open>Promise.all\<close> over the workers' promises.\<close>

datatype promise_state = Pending | Fulfilled | Failed

definition pool_promise :: "pool \<Rightarrow> promise_state" where
  "pool_promise p =
     (if list_ex (\<lambda>st. st = Rejected) (workers p) then Failed
      else if list_all (\<lambda>st. st = Returned) (workers p) then Fulfilled
      else Pending)"

text \<open>
  The indices some worker is waiting on, the workers in \<open>running\<close> left aside, and the
  invariant of the pool while the workers in \<open>running\<close> execute their loop body.
\<close>

definition awaited :: "nat set \<Rightarrow> pool \<Rightarrow> nat set" where
  "awaited running p =
     {i. \<exists>v < length (workers p). v \<notin> running \<and> workers p ! v = Awaiting i}"

definition pool_inv :: "'a option list \<Rightarrow> nat \<Rightarrow> nat set \<Rightarrow> pool \<Rightarrow> bool" where
  "pool_inv entries n running p \<longleftrightarrow>
     length (workers p) = n
     \<and> nextIndex p \<le> length entries
     \<and> map snd (claimed p) = [0..<nextIndex p]
     \<and> (\<forall>c \<in> set (claimed p). fst c < n)
     \<and> invoked p = filter (\<lambda>i. entries ! i \<noteq> None) [0..<nextIndex p]
     \<and> set (invoked p) = set (settled p) \<union> awaited running p
     \<and> (Returned \<in> set (workers p) \<longrightarrow> nextIndex p = length entries)"

text \<open>
  For the argument that the pool can always finish: the number of workers that wait, and
  the pools in which every worker has started and none was rejected.
\<close>

fun waiting :: "worker_state \<Rightarrow> nat" where
  "waiting (Awaiting i) = 1"
| "waiting NotStarted = 0"
| "waiting Returned = 0"
| "waiting Rejected = 0"

definition ready :: "pool \<Rightarrow> bool" where
  "ready p = list_all (\<lambda>st. st \<noteq> NotStarted \<and> st \<noteq> Rejected) (workers p)"

section \<open>The queue under interleaved updates\<close>

text \<open>
  The whole hook as a transition system. Besides the hook's state it keeps, for every
  item ever enqueued, the keyed updates that the item's \<^verbatim>\<open>uploadSingle\<close> call, and the
  progress callback it made, have not issued yet. The updates of different items, and
  the user's actions, interleave in any order; the worker pool only restricts when a
  call starts, so every order it allows is among these. \<open>crashed\<close> is set when an updater
  has thrown: React then takes the component down, and the model stops there.
\<close>

record system =
  hook :: hook_state
  pending :: "(string \<times> updater list) list"
  crashed :: bool

text \<open>
  \<open>AddFiles\<close> enqueues a batch; each file comes with the id and the object URL the browser
  gives it and with what the network will answer during its upload. \<open>Deliver k\<close> applies
  the next update of the \<open>k\<close>-th upload started. The other two are the user's actions.
\<close>

datatype event =
    AddFiles "(File \<times> string \<times> string \<times> upload_env) list"
  | Deliver nat
  | RemoveItem string
  | ClearFinished

definition system_init :: system where
  "system_init = \<lparr>hook = hook_init, pending = [], crashed = False\<rparr>"

definition script_of :: "string \<Rightarrow> File \<times> string \<times> string \<times> upload_env \<Rightarrow> string \<times> updater list" where
  "script_of header inp =
     (case inp of (f, i, url, env) \<Rightarrow>
        (i, fst (uploadSingle (new_item (f, i, url)) header env)))"

text \<open>
  \<^verbatim>\<open>createUploadId\<close> returns an id that was never used before: a batch whose ids repeat or
  were used already does not occur, and the step ignores it. An updater is run only on
  an item with its id; one that throws there ends the run.
\<close>

definition sys_step :: "string \<Rightarrow> system \<Rightarrow> event \<Rightarrow> system" where
  "sys_step header s ev =
     (if crashed s then s
      else
     (case ev of
        AddFiles batch \<Rightarrow>
          (let inputFiles = map (\<lambda>(f, i, url, env). (f, i, url)) batch;
               ids = map (\<lambda>(f, i, url, env). i) batch
           in if distinct ids \<and> set ids \<inter> set (map fst (pending s)) = {} then
                \<lparr>hook = fst (addFiles (hook s) inputFiles),
                 pending = pending s @ map (script_of header) batch,
                 crashed = False\<rparr>
              else s)
      | Deliver k \<Rightarrow>
          (if k < length (pending s) then
             (case pending s ! k of
                (i, []) \<Rightarrow> s
              | (i, u # rest) \<Rightarrow>
                  if throws_on u \<and> i \<in> item_id ` set (items (hook s)) then
                    s\<lparr>crashed := True\<rparr>
                  else
                    \<lparr>hook = (hook s)\<lparr>items := updateItem i (apply_updater u) (items (hook s))\<rparr>,
                     pending = (pending s)[k := (i, rest)],
                     crashed = False\<rparr>)
           else s)
      | RemoveItem i \<Rightarrow> s\<lparr>hook := removeItem (hook s) i\<rparr>
      | ClearFinished \<Rightarrow> s\<lparr>hook := clearFinished (hook s)\<rparr>))"

definition run_events :: "string \<Rightarrow> event list \<Rightarrow> system" where
  "run_events header evs = foldl (sys_step header) system_init evs"

text \<open>
  How far the worker of an item has come, which updates may still follow from there
  (progress updates below 100 may come at any time once the transfer has begun), and the
  invariant that ties each item of the queue to the updates still to come for it.
\<close>

datatype phase = Fresh | Signed | Transferring | Confirmed | Over

fun accepts :: "phase \<Rightarrow> updater list \<Rightarrow> bool" where
  "accepts Fresh (ToSigning # rest) = accepts Signed rest"
| "accepts Signed (ToError m # rest) = accepts Over rest"
| "accepts Signed (ToUploading g # rest) = accepts Transferring rest"
| "accepts Transferring (ToError m # rest) = accepts Over rest"
| "accepts Transferring (OnProgress p # rest) =
     (if p = 100 then accepts Confirmed rest else p < 100 \<and> accepts Transferring rest)"
| "accepts Confirmed (OnProgress p # rest) = (p < 100 \<and> accepts Confirmed rest)"
| "accepts Confirmed (ToSuccess g # rest) = accepts Over rest"
| "accepts Over (OnProgress p # rest) = (p < 100 \<and> accepts Over rest)"
| "accepts Over [] = True"
| "accepts ph us = False"

definition full_only_when_sent :: "UploadItem \<Rightarrow> bool" where
  "full_only_when_sent item =
     (progress item = 100 \<longrightarrow> status item = Uploading \<or> status item = Success)"

fun in_phase :: "phase \<Rightarrow> UploadItem \<Rightarrow> bool" where
  "in_phase Fresh item = (status item = Queued \<and> progress item = 0)"
| "in_phase Signed item = (progress item < 100)"
| "in_phase Transferring item = (progress item < 100)"
| "in_phase Confirmed item = full_only_when_sent item"
| "in_phase Over item = full_only_when_sent item"

definition coherent :: "UploadItem \<Rightarrow> updater list \<Rightarrow> bool" where
  "coherent item rest = (\<exists>ph. in_phase ph item \<and> accepts ph rest)"

definition sys_inv :: "system \<Rightarrow> bool" where
  "sys_inv s \<longleftrightarrow>
     distinct (map fst (pending s))
     \<and> distinct (map item_id (items (hook s)))
     \<and> (\<forall>item \<in> set (items (hook s)).
           \<exists>rest. (item_id item, rest) \<in> set (pending s) \<and> coherent item rest)"

section \<open>Concrete inputs\<close>

definition a_png :: File where
  "a_png = \<lparr>file_name = ''a.png'', file_type = ''image/png'', file_size = 2048,
     file_has_stream = True\<rparr>"

definition notes_txt :: File where
  "notes_txt = \<lparr>file_name = ''notes.txt'', file_type = ''text/plain'', file_size = 10,
     file_has_stream = True\<rparr>"

definition empty_bin :: File where
  "empty_bin = \<lparr>file_name = ''empty.bin'', file_type = [], file_size = 0,
     file_has_stream = True\<rparr>"

definition one_queued :: hook_state where
  "one_queued = fst (addFiles hook_init [(notes_txt, ''id-1'', ''blob:1'')])"

definition mixed_queue :: hook_state where
  "mixed_queue =
     \<lparr>items =
        [\<lparr>item_id = ''id-s'', item_file = a_png, previewUrl = Some ''blob:s'', progress = 100,
          status = Success, error = None, publicUrl = Some ''https://x/s'', objectName = Some ''s''\<rparr>,
         \<lparr>item_id = ''id-u'', item_file = a_png, previewUrl = Some ''blob:u'', progress = 40,
          status = Uploading, error = None, publicUrl = Some ''https://x/u'', objectName = Some ''u''\<rparr>,
         \<lparr>item_id = ''id-e'', item_file = notes_txt, previewUrl = None, progress = 5,
          status = Error, error = Some ''Upload failed'', publicUrl = None, objectName = None\<rparr>],
      previewMap = [''id-s'' \<mapsto> ''blob:s'', ''id-u'' \<mapsto> ''blob:u''],
      revoked = []\<rparr>"

definition unauthorized :: Response where
  "unauthorized = \<lparr>resp_status = 401, resp_statusText = ''Unauthorized'',
     resp_json = Inr (JObj [(''error'', JStr ''Missing authentication context'')])\<rparr>"

definition blank_error :: Response where
  "blank_error = \<lparr>resp_status = 500, resp_statusText = ''Internal Server Error'',
     resp_json = Inr (JObj [(''error'', JStr '' '')])\<rparr>"

definition idle_transfer :: transfer_env where
  "idle_transfer = \<lparr>chunks = [], read_early = 0, read_during_fallback = 0,
     read_before_update = 0, streamed_fetch = FetchThrows JsOther,
     buffered_fetch = FetchThrows JsOther\<rparr>"

definition plain_grant :: json where
  "plain_grant =
     JObj [(''method'', JStr ''PUT''), (''uploadUrl'', JStr ''https://storage.example/put''),
           (''headers'', JObj [(''Content-Type'', JStr ''image/png'')]),
           (''objectName'', JStr ''uploads/u1/x-a.png''),
           (''publicUrl'', JStr ''https://storage.example/uploads/u1/x-a.png'')]"

definition answered :: "nat \<Rightarrow> string \<Rightarrow> fetch_result" where
  "answered st line =
     FetchResponse \<lparr>resp_status = st, resp_statusText = line, resp_json = Inl JsOther\<rparr>"

definition stream_ok :: transfer_env where
  "stream_ok = \<lparr>chunks = [512, 512, 1024], read_early = 3, read_during_fallback = 0,
     read_before_update = 0, streamed_fetch = answered 200 ''OK'',
     buffered_fetch = FetchThrows JsOther\<rparr>"

definition stream_late :: transfer_env where
  "stream_late = \<lparr>chunks = [512, 512], read_early = 1, read_during_fallback = 0,
     read_before_update = 0, streamed_fetch = answered 200 ''OK'',
     buffered_fetch = FetchThrows JsOther\<rparr>"

definition fallback_ok :: transfer_env where
  "fallback_ok = \<lparr>chunks = [512], read_early = 0, read_during_fallback = 0,
     read_before_update = 0,
     streamed_fetch = FetchThrows (JsError ''duplex not supported''),
     buffered_fetch = answered 200 ''OK''\<rparr>"

definition fallback_403 :: transfer_env where
  "fallback_403 = \<lparr>chunks = [512], read_early = 0, read_during_fallback = 0,
     read_before_update = 0,
     streamed_fetch = FetchThrows (JsError ''duplex not supported''),
     buffered_fetch = answered 403 ''Forbidden''\<rparr>"

definition grant_of :: "json \<Rightarrow> fetch_result" where
  "grant_of body = FetchResponse \<lparr>resp_status = 200, resp_statusText = ''OK'', resp_json = Inr body\<rparr>"

definition done_item :: "string \<Rightarrow> string \<Rightarrow> UploadItem" where
  "done_item i n =
     \<lparr>item_id = i, item_file = notes_txt, previewUrl = None, progress = 100, status = Success,
      error = None, publicUrl = Some (''https://storage.example/'' @ n), objectName = Some n\<rparr>"

definition joined_names :: "UploadItem list" where
  "joined_names = [done_item ''id-1'' ''a::b'']"

definition split_names :: "UploadItem list" where
  "split_names = [done_item ''id-2'' ''a'', done_item ''id-3'' ''b'']"

definition five_entries :: "string option list" where
  "five_entries = [Some ''a'', Some ''b'', Some ''c'', Some ''d'', Some ''e'']"

definition five_schedule :: "(nat \<times> bool) list" where
  "five_schedule = [(1, True), (0, True), (1, True), (2, True), (0, True)]"

definition grant_ok :: fetch_result where
  "grant_ok = FetchResponse \<lparr>resp_status = 200, resp_statusText = ''OK'',
     resp_json = Inr (JObj [(''uploadUrl'', JStr ''https://storage.example/put''),
                            (''objectName'', JStr ''uploads/u1/x-empty.bin''),
                            (''publicUrl'', JStr ''https://storage.example/uploads/u1/x-empty.bin'')])\<rparr>"

definition put_ok :: transfer_env where
  "put_ok = \<lparr>chunks = [], read_early = 0, read_during_fallback = 0, read_before_update = 0,
     streamed_fetch = FetchThrows JsOther,
     buffered_fetch = FetchResponse \<lparr>resp_status = 200, resp_statusText = ''OK'', resp_json = Inl JsOther\<rparr>\<rparr>"

definition empty_upload :: "event list" where
  "empty_upload =
     [AddFiles [(empty_bin, ''id-1'', ''blob:1'', \<lparr>grant_fetch = grant_ok, transfer = put_ok\<rparr>)],
      Deliver 0, Deliver 0, Deliver 0]"

definition late_upload :: "event list" where
  "late_upload =
     [AddFiles [(a_png, ''id-1'', ''blob:1'',
        \<lparr>grant_fetch = grant_of plain_grant, transfer = stream_late\<rparr>)],
      Deliver 0, Deliver 0, Deliver 0, Deliver 0, Deliver 0]"

definition null_grant_upload :: "event list" where
  "null_grant_upload =
     [AddFiles [(a_png, ''id-1'', ''blob:1'',
        \<lparr>grant_fetch = grant_of JNull, transfer = idle_transfer\<rparr>)],
      Deliver 0, Deliver 0]"

section \<open>The keyed update leaves unknown ids alone\<close>

lemma updateItem_length: "length (updateItem i f xs) = length xs"
  by (simp add: updateItem_def)

lemma updateItem_not_member:
  assumes "\<forall>item \<in> set current. item_id item \<noteq> i"
  shows "updateItem i updater current = current"
  using assms by (induction current) (simp_all add: updateItem_def)

lemma items_removeItem:
  "items (removeItem s i) = filter (\<lambda>item. item_id item \<noteq> i) (items s)"
  by (simp add: removeItem_def Let_def split: option.splits)

text \<open>
  Claim C10. When no item of the list has the id \<open>i\<close>, \<open>updateItem i updater\<close> returns the
  list as it is, whatever the updater. So once \<open>removeItem s i\<close> has taken the item out,
  a progress or status update that still arrives for \<open>i\<close> changes none of the remaining
  items.
\<close>

theorem updateItem_unknown_id:
  assumes "\<forall>item \<in> set current. item_id item \<noteq> i"
  shows "updateItem i updater current = current
       \<and> updateItem i updater' (items (removeItem s i)) = items (removeItem s i)"
  using assms by (simp add: updateItem_not_member items_removeItem)

theorem updateItem_unknown_id_witness:
  "list_all (\<lambda>item. item_id item \<noteq> ''id-9'') (items one_queued)
   \<and> updateItem ''id-9'' (apply_updater (OnProgress 50)) (items one_queued) = items one_queued"
  using updateItem_unknown_id [of "items one_queued" "''id-9''" "apply_updater (OnProgress 50)"]
  by (simp add: one_queued_def hook_init_def addFiles_def Let_def new_item_def notes_txt_def)

section \<open>Enqueueing\<close>

lemma new_item_fields:
  "status (new_item inp) = Queued" "progress (new_item inp) = 0"
  "item_file (new_item inp) = fst inp" "item_id (new_item inp) = fst (snd inp)"
  by (cases inp; simp add: new_item_def)+

text \<open>
  Claim C7, as the code has it. For a non-empty batch, \<open>addFiles\<close> puts the new items
  (status \<open>Queued\<close>, progress 0, one per file and in the order of the files) in front of
  the items already there: the resulting list is the new items followed by the prior
  ones. The new items are also what is handed to \<open>startUploads\<close>.
\<close>

theorem addFiles_prepends:
  assumes "inputFiles \<noteq> []"
  shows "items (fst (addFiles s inputFiles)) = map new_item inputFiles @ items s
       \<and> snd (addFiles s inputFiles) = map new_item inputFiles
       \<and> map item_file (map new_item inputFiles) = map fst inputFiles
       \<and> (\<forall>item \<in> set (map new_item inputFiles). status item = Queued \<and> progress item = 0)"
  using assms by (auto simp: addFiles_def Let_def new_item_fields)

theorem addFiles_prepends_witness:
  "[(a_png, ''id-2'', ''blob:2'')] \<noteq> []
   \<and> map item_id (items (fst (addFiles one_queued [(a_png, ''id-2'', ''blob:2'')])))
       = [''id-2'', ''id-1'']"
  using addFiles_prepends [of "[(a_png, ''id-2'', ''blob:2'')]" one_queued]
  by (simp add: one_queued_def hook_init_def addFiles_def Let_def new_item_def a_png_def
      notes_txt_def)

text \<open>
  The claim as stated (prior items first, then the new ones) fails when one file is added
  to a queue that holds one item.
\<close>

theorem addFiles_appends_counterexample:
  "items (fst (addFiles one_queued [(a_png, ''id-2'', ''blob:2'')]))
     \<noteq> items one_queued @ map new_item [(a_png, ''id-2'', ''blob:2'')]"
  by (simp add: one_queued_def hook_init_def addFiles_def Let_def new_item_def a_png_def
      notes_txt_def)

section \<open>Clearing finished items\<close>

lemma release_finished_items: "items (release_finished s xs) = items s"
  by (induction s xs rule: release_finished.induct) (auto split: option.splits)

lemma release_finished_revoked:
  "revoked (release_finished s xs) = revoked s @ List.map_filter previewUrl
      (filter (\<lambda>item. (status item = Success \<or> status item = Error) \<and> truthy (previewUrl item)) xs)"
  by (induction s xs rule: release_finished.induct)
     (auto simp: finished_def List.map_filter_simps split: option.splits)

lemma release_finished_previewMap:
  "previewMap (release_finished s xs) k =
     (if k \<in> item_id ` {item \<in> set xs. finished item \<and> truthy (previewUrl item)} then None
      else previewMap s k)"
  by (induction s xs rule: release_finished.induct)
     (auto split: option.splits)

lemma map_filter_mem: "u \<in> set (List.map_filter f xs) \<longleftrightarrow> (\<exists>x \<in> set xs. f x = Some u)"
  by (induction xs) (auto simp: List.map_filter_simps split: option.splits)

lemma distinct_map_filter_same:
  "distinct (List.map_filter f xs) \<Longrightarrow> x \<in> set xs \<Longrightarrow> y \<in> set xs \<Longrightarrow> f x = Some u
     \<Longrightarrow> f y = Some u \<Longrightarrow> x = y"
  by (induction xs) (auto simp: List.map_filter_simps map_filter_mem split: option.splits)

text \<open>
  Claim C9. \<open>clearFinished\<close> keeps exactly the items whose status is \<open>Queued\<close>, \<open>Signing\<close>
  or \<open>Uploading\<close>, unchanged and in their order, so it removes exactly the \<open>Success\<close> and
  \<open>Error\<close> items. It revokes the preview URL of each removed item that has one, once, in
  queue order, and nothing else. When ids and preview URLs are not shared between items,
  every kept item still has its entry in the preview map and its preview URL is not
  among the URLs revoked by this call.
\<close>

theorem clearFinished_frame:
  assumes ids: "distinct (map item_id (items s))"
      and urls: "distinct (List.map_filter previewUrl (items s))"
  shows "items (clearFinished s) =
           filter (\<lambda>item. status item = Queued \<or> status item = Signing \<or> status item = Uploading)
             (items s)
       \<and> revoked (clearFinished s) = revoked s @ List.map_filter previewUrl
           (filter (\<lambda>item. (status item = Success \<or> status item = Error) \<and> truthy (previewUrl item))
             (items s))
       \<and> (\<forall>item \<in> set (items (clearFinished s)).
             previewMap (clearFinished s) (item_id item) = previewMap s (item_id item)
             \<and> (\<forall>url. previewUrl item = Some url \<longrightarrow>
                   url \<notin> set (drop (length (revoked s)) (revoked (clearFinished s)))))"
proof -
  have keep: "(status item \<noteq> Success \<and> status item \<noteq> Error) =
        (status item = Queued \<or> status item = Signing \<or> status item = Uploading)" for item
    by (cases "status item") simp_all
  have A: "items (clearFinished s) =
           filter (\<lambda>item. status item = Queued \<or> status item = Signing \<or> status item = Uploading)
             (items s)"
    by (simp add: clearFinished_def Let_def keep)
  have B: "revoked (clearFinished s) = revoked s @ List.map_filter previewUrl
           (filter (\<lambda>item. (status item = Success \<or> status item = Error) \<and> truthy (previewUrl item))
             (items s))"
    by (simp add: clearFinished_def Let_def release_finished_revoked)
  have C: "previewMap (clearFinished s) (item_id item) = previewMap s (item_id item)
           \<and> (\<forall>url. previewUrl item = Some url \<longrightarrow>
                   url \<notin> set (drop (length (revoked s)) (revoked (clearFinished s))))"
    if mem: "item \<in> set (items (clearFinished s))" for item
  proof
    from mem have in_s: "item \<in> set (items s)" and live: "\<not> finished item"
      by (auto simp: A finished_def)
    have "item_id item \<notin> item_id ` {x \<in> set (items s). finished x \<and> truthy (previewUrl x)}"
    proof
      assume "item_id item \<in> item_id ` {x \<in> set (items s). finished x \<and> truthy (previewUrl x)}"
      then obtain x where x: "x \<in> set (items s)" "finished x" "item_id x = item_id item"
        by auto
      with ids in_s have "x = item"
        by (meson distinct_map inj_onD)
      with x live show False by simp
    qed
    then show "previewMap (clearFinished s) (item_id item) = previewMap s (item_id item)"
      by (simp add: clearFinished_def Let_def release_finished_previewMap)
    show "\<forall>url. previewUrl item = Some url \<longrightarrow>
            url \<notin> set (drop (length (revoked s)) (revoked (clearFinished s)))"
    proof (intro allI impI notI)
      fix url
      assume u: "previewUrl item = Some url"
         and "url \<in> set (drop (length (revoked s)) (revoked (clearFinished s)))"
      then obtain x where x: "x \<in> set (items s)" "status x = Success \<or> status x = Error"
          "previewUrl x = Some url"
        by (auto simp: B map_filter_mem)
      from distinct_map_filter_same [OF urls x(1) in_s x(3) u] have "x = item" .
      with x(2) live show False by (auto simp: finished_def)
    qed
  qed
  from A B C show ?thesis by blast
qed

theorem clearFinished_frame_witness:
  "distinct (map item_id (items mixed_queue))
   \<and> distinct (List.map_filter previewUrl (items mixed_queue))
   \<and> map item_id (items (clearFinished mixed_queue)) = [''id-u'']
   \<and> revoked (clearFinished mixed_queue) = [''blob:s'']
   \<and> previewMap (clearFinished mixed_queue) ''id-u'' = Some ''blob:u''"
  using clearFinished_frame [of mixed_queue]
  by (simp add: mixed_queue_def clearFinished_def Let_def finished_def List.map_filter_simps)

section \<open>Failed grants\<close>

lemma readApiError_cases:
  "readApiError r =
     (case resp_json r of
        Inr (JObj kvs) \<Rightarrow>
          (case map_of (rev kvs) ''error'' of
             Some (JStr s) \<Rightarrow> if trim s \<noteq> [] then s else synthesized r
           | _ \<Rightarrow> synthesized r)
      | _ \<Rightarrow> synthesized r)"
  by (simp add: readApiError_def split: sum.splits json.splits option.splits)

lemma trim_auth: "trim ''Missing authentication context'' \<noteq> []"
  by (simp add: trim_def is_js_space_def)

text \<open>
  Claim C8, as the code has it. When the grant endpoint answers with a non-success status,
  \<open>requestSignedUrl\<close> throws an \<open>Error\<close> whose message is the \<open>error\<close> property of the JSON
  body when that property is a string that is not empty after trimming white space, and
  otherwise \<open>Request failed with\<close> followed by the status and the status text. A 401 with
  the body \<open>{"error": "Missing authentication context"}\<close> makes \<open>uploadSingle\<close> end with the
  update that stores that message in the item.
\<close>

theorem requestSignedUrl_not_ok:
  assumes "\<not> resp_ok r"
  shows "requestSignedUrl f header (FetchResponse r) =
           Inl (JsError
             (case resp_json r of
                Inr (JObj kvs) \<Rightarrow>
                  (case map_of (rev kvs) ''error'' of
                     Some (JStr s) \<Rightarrow>
                       if trim s \<noteq> [] then s
                       else ''Request failed with '' @ show_nat (resp_status r) @ '' '' @ resp_statusText r
                   | _ \<Rightarrow> ''Request failed with '' @ show_nat (resp_status r) @ '' '' @ resp_statusText r)
              | _ \<Rightarrow> ''Request failed with '' @ show_nat (resp_status r) @ '' '' @ resp_statusText r))
       \<and> (resp_status r = 401 \<and> resp_json r = Inr (JObj [(''error'', JStr ''Missing authentication context'')])
            \<longrightarrow> fst (uploadSingle item header \<lparr>grant_fetch = FetchResponse r, transfer = t\<rparr>)
                  = [ToSigning, ToError ''Missing authentication context''])"
proof
  show "requestSignedUrl f header (FetchResponse r) =
           Inl (JsError
             (case resp_json r of
                Inr (JObj kvs) \<Rightarrow>
                  (case map_of (rev kvs) ''error'' of
                     Some (JStr s) \<Rightarrow>
                       if trim s \<noteq> [] then s
                       else ''Request failed with '' @ show_nat (resp_status r) @ '' '' @ resp_statusText r
                   | _ \<Rightarrow> ''Request failed with '' @ show_nat (resp_status r) @ '' '' @ resp_statusText r)
              | _ \<Rightarrow> ''Request failed with '' @ show_nat (resp_status r) @ '' '' @ resp_statusText r))"
    using assms
    by (simp add: requestSignedUrl_def readApiError_cases synthesized_def
        split: sum.splits json.splits option.splits)
  show "resp_status r = 401 \<and> resp_json r = Inr (JObj [(''error'', JStr ''Missing authentication context'')])
            \<longrightarrow> fst (uploadSingle item header \<lparr>grant_fetch = FetchResponse r, transfer = t\<rparr>)
                  = [ToSigning, ToError ''Missing authentication context'']"
    using assms
    by (simp add: uploadSingle_def try_block_def stale_updates_def requestSignedUrl_def
        readApiError_cases trim_auth)
qed

theorem requestSignedUrl_not_ok_witness:
  "\<not> resp_ok unauthorized
   \<and> requestSignedUrl a_png ''demo-user-123'' (FetchResponse unauthorized)
       = Inl (JsError ''Missing authentication context'')
   \<and> map (error \<circ> (\<lambda>u. apply_updater u (new_item (a_png, ''id-1'', ''blob:1''))))
        (fst (uploadSingle (new_item (a_png, ''id-1'', ''blob:1'')) ''demo-user-123''
          \<lparr>grant_fetch = FetchResponse unauthorized, transfer = idle_transfer\<rparr>))
       = [None, Some ''Missing authentication context'']"
  using requestSignedUrl_not_ok [of unauthorized a_png "''demo-user-123''"
      "new_item (a_png, ''id-1'', ''blob:1'')" idle_transfer]
  by (simp add: unauthorized_def resp_ok_def trim_auth new_item_def)

text \<open>
  The claim as stated takes the \<open>error\<close> property whenever it is a non-empty string. A
  body whose \<open>error\<close> is one space is a non-empty string, and the message is the
  synthesized one.
\<close>

theorem requestSignedUrl_blank_error_counterexample:
  "\<not> resp_ok blank_error
   \<and> get_prop (JObj [(''error'', JStr '' '')]) ''error'' = Inr (Some (JStr '' ''))
   \<and> '' '' \<noteq> ''''
   \<and> requestSignedUrl a_png ''demo-user-123'' (FetchResponse blank_error)
       = Inl (JsError ''Request failed with 500 Internal Server Error'')
   \<and> requestSignedUrl a_png ''demo-user-123'' (FetchResponse blank_error) \<noteq> Inl (JsError '' '')"
  by code_simp

section \<open>Progress of a streamed transfer\<close>

lemma ilog2_bounds:
  assumes "0 < x"
  shows "2 powi ilog2 x \<le> x" and "x < 2 powi (ilog2 x + 1)"
proof -
  have "2 powi ilog2 x \<le> x \<and> x < 2 powi (ilog2 x + 1)"
  proof (cases "1 \<le> x")
    case True
    define n where "n = \<lfloor>x\<rfloor>"
    from True have n: "0 < n" by (simp add: n_def)
    from bitlen_bounds [OF n] have lo: "2 ^ nat (bitlen n - 1) \<le> n" and hi: "n < 2 ^ nat (bitlen n)"
      by simp_all
    from n have pos: "1 \<le> bitlen n" by (simp add: bitlen_alt_def)
    have "(2::rat) powi (bitlen n - 1) = 2 ^ nat (bitlen n - 1)"
      using pos by (simp add: power_int_def)
    also have "\<dots> = of_int (2 ^ nat (bitlen n - 1))" by simp
    also have "\<dots> \<le> of_int n" using lo by (simp only: of_int_le_iff)
    also have "\<dots> \<le> x" by (simp add: n_def)
    finally have A: "2 powi (bitlen n - 1) \<le> x" .
    have "x < of_int (n + 1)" unfolding n_def by linarith
    also have "\<dots> \<le> of_int (2 ^ nat (bitlen n))"
    proof -
      from hi have "n + 1 \<le> 2 ^ nat (bitlen n)" by simp
      then show ?thesis by (simp only: of_int_le_iff)
    qed
    also have "\<dots> = (2::rat) powi (bitlen n)" using pos by (simp add: power_int_def)
    finally have B: "x < 2 powi (bitlen n)" .
    from A B True show ?thesis by (simp add: ilog2_def n_def)
  next
    case False
    then have x1: "x < 1" by simp
    define n where "n = \<lceil>1 / x\<rceil>"
    define j where "j = bitlen (n - 1)"
    from assms x1 have inv: "1 < 1 / x" by simp
    then have n2: "2 \<le> n" unfolding n_def by linarith
    then have m: "0 < n - 1" by simp
    from bitlen_bounds [OF m] have lo: "2 ^ nat (j - 1) \<le> n - 1" and hi: "n - 1 < 2 ^ nat j"
      by (simp_all add: j_def)
    from m have jpos: "1 \<le> j" by (simp add: j_def bitlen_alt_def)
    have "1 / x \<le> of_int n" by (simp add: n_def)
    also have "\<dots> \<le> of_int (2 ^ nat j)"
    proof -
      from hi have "n \<le> 2 ^ nat j" by simp
      then show ?thesis by (simp only: of_int_le_iff)
    qed
    also have "\<dots> = (2::rat) ^ nat j" by simp
    finally have "1 / x \<le> 2 ^ nat j" .
    with assms have "1 / 2 ^ nat j \<le> x"
      by (simp add: field_simps)
    moreover have "(2::rat) powi (- j) = 1 / 2 ^ nat j"
      using jpos by (simp add: power_int_def field_simps)
    ultimately have A: "2 powi (- j) \<le> x" by simp
    have "of_int (2 ^ nat (j - 1)) \<le> (of_int (n - 1) :: rat)" using lo by (simp only: of_int_le_iff)
    also have "of_int (n - 1) < 1 / x" unfolding n_def by linarith
    finally have "2 ^ nat (j - 1) < 1 / x" by simp
    with assms have "x < 1 / 2 ^ nat (j - 1)" by (simp add: field_simps)
    moreover have "(2::rat) powi (- j + 1) = 1 / 2 ^ nat (j - 1)"
    proof (cases "j = 1")
      case True
      then show ?thesis by simp
    next
      case False
      with jpos have "- j + 1 < 0" by simp
      then show ?thesis by (simp add: power_int_def field_simps)
    qed
    ultimately have B: "x < 2 powi (- j + 1)" by simp
    from A B x1 show ?thesis by (simp add: ilog2_def n_def j_def)
  qed
  then show "2 powi ilog2 x \<le> x" and "x < 2 powi (ilog2 x + 1)" by simp_all
qed

lemma rne_ge: "of_int n \<le> y \<Longrightarrow> n \<le> rne y"
proof -
  assume "of_int n \<le> y"
  then have "n \<le> \<lfloor>y\<rfloor>" by (simp add: le_floor_iff)
  moreover have "\<lfloor>y\<rfloor> \<le> rne y" unfolding rne_def by auto
  ultimately show ?thesis by linarith
qed

lemma rne_le: "y \<le> of_int n \<Longrightarrow> rne y \<le> n"
proof -
  assume le: "y \<le> of_int n"
  show ?thesis
  proof (cases "y = of_int n")
    case True
    then show ?thesis by (simp add: rne_def)
  next
    case False
    with le have "y < of_int n" by simp
    then have "\<lfloor>y\<rfloor> < n" by (simp add: floor_less_iff)
    moreover have "rne y \<le> \<lfloor>y\<rfloor> + 1" unfolding rne_def by auto
    ultimately show ?thesis by linarith
  qed
qed

lemma rne_mono: "y \<le> z \<Longrightarrow> rne y \<le> rne z"
proof -
  assume le: "y \<le> z"
  then have f: "\<lfloor>y\<rfloor> \<le> \<lfloor>z\<rfloor>" by (rule floor_mono)
  show ?thesis
  proof (cases "\<lfloor>y\<rfloor> = \<lfloor>z\<rfloor>")
    case True
    with le show ?thesis unfolding rne_def by auto
  next
    case False
    with f have "\<lfloor>y\<rfloor> + 1 \<le> \<lfloor>z\<rfloor>" by simp
    moreover have "rne y \<le> \<lfloor>y\<rfloor> + 1" unfolding rne_def by auto
    moreover have "\<lfloor>z\<rfloor> \<le> rne z" unfolding rne_def by auto
    ultimately show ?thesis by linarith
  qed
qed

lemma fl_pos:
  assumes "0 < x"
  shows "fl x = of_int (rne (x / 2 powi (ilog2 x - 52))) * 2 powi (ilog2 x - 52)"
  using assms by (simp add: fl_def)

lemma pow2_split: "(2::rat) powi k = 2 powi (k - e) * 2 powi e"
  using power_int_add [of "2::rat" "k - e" e] by simp

lemma fl_bounds:
  assumes "0 < x"
  shows "2 powi ilog2 x \<le> fl x" and "fl x \<le> 2 powi (ilog2 x + 1)"
proof -
  define e where "e = ilog2 x - 52"
  define s :: rat where "s = 2 powi e"
  have s: "0 < s" by (simp add: s_def zero_less_power_int)
  have lo: "2 powi ilog2 x = of_int (2 ^ 52) * s"
    using pow2_split [of "ilog2 x" e] by (simp add: s_def e_def)
  have hi: "2 powi (ilog2 x + 1) = of_int (2 ^ 53) * s"
    using pow2_split [of "ilog2 x + 1" e] by (simp add: s_def e_def)
  from ilog2_bounds [OF assms] have "of_int (2 ^ 52) * s \<le> x" "x \<le> of_int (2 ^ 53) * s"
    unfolding lo hi by simp_all
  with s have q: "of_int (2 ^ 52) \<le> x / s" "x / s \<le> of_int (2 ^ 53)"
    by (simp_all add: field_simps)
  have "2 ^ 52 \<le> rne (x / s)" "rne (x / s) \<le> 2 ^ 53"
    using rne_ge [OF q(1)] rne_le [OF q(2)] by simp_all
  then have "of_int (2 ^ 52) \<le> (of_int (rne (x / s)) :: rat)" "(of_int (rne (x / s)) :: rat) \<le> of_int (2 ^ 53)"
    by (simp_all only: of_int_le_iff)
  with s have "of_int (2 ^ 52) * s \<le> of_int (rne (x / s)) * s" "of_int (rne (x / s)) * s \<le> of_int (2 ^ 53) * s"
    by (simp_all only: mult_le_cancel_right_pos)
  then show "2 powi ilog2 x \<le> fl x" and "fl x \<le> 2 powi (ilog2 x + 1)"
    unfolding lo hi fl_pos [OF assms] s_def e_def by simp_all
qed

lemma ilog2_mono:
  assumes "0 < x" and "x \<le> y"
  shows "ilog2 x \<le> ilog2 y"
proof (rule ccontr)
  assume "\<not> ilog2 x \<le> ilog2 y"
  then have "ilog2 y + 1 \<le> ilog2 x" by simp
  then have "(2::rat) powi (ilog2 y + 1) \<le> 2 powi ilog2 x"
    by (rule power_int_increasing) simp
  moreover from assms have "0 < y" by simp
  ultimately have "y < x"
    using ilog2_bounds(2) [of y] ilog2_bounds(1) [OF assms(1)] by linarith
  with assms(2) show False by simp
qed

lemma fl_nonneg: "0 \<le> x \<Longrightarrow> 0 \<le> fl x"
proof (cases "x = 0")
  case True
  then show ?thesis by (simp add: fl_def)
next
  case False
  assume "0 \<le> x"
  with False have x: "0 < x" by simp
  have "(0::rat) < 2 powi ilog2 x" by (simp add: zero_less_power_int)
  with fl_bounds(1) [OF x] show ?thesis by linarith
qed

lemma fl_mono:
  assumes "0 \<le> x" and "x \<le> y"
  shows "fl x \<le> fl y"
proof (cases "x = 0")
  case True
  with assms fl_nonneg [of y] show ?thesis by (simp add: fl_def)
next
  case False
  with assms have x: "0 < x" and y: "0 < y" by simp_all
  from ilog2_mono [OF x assms(2)] have e: "ilog2 x \<le> ilog2 y" .
  show ?thesis
  proof (cases "ilog2 x = ilog2 y")
    case True
    define s :: rat where "s = 2 powi (ilog2 y - 52)"
    have s: "0 < s" by (simp add: s_def zero_less_power_int)
    with assms(2) have "x / s \<le> y / s" by (simp add: divide_right_mono)
    then have "rne (x / s) \<le> rne (y / s)" by (rule rne_mono)
    then have "(of_int (rne (x / s)) :: rat) \<le> of_int (rne (y / s))" by (simp only: of_int_le_iff)
    with s have "of_int (rne (x / s)) * s \<le> of_int (rne (y / s)) * s"
      by (simp only: mult_le_cancel_right_pos)
    then show ?thesis
      unfolding fl_pos [OF x] fl_pos [OF y] True s_def .
  next
    case False
    with e have "ilog2 x + 1 \<le> ilog2 y" by simp
    then have "(2::rat) powi (ilog2 x + 1) \<le> 2 powi ilog2 y"
      by (rule power_int_increasing) simp
    with fl_bounds(2) [OF x] fl_bounds(1) [OF y] show ?thesis by linarith
  qed
qed

lemma js_round_mono: "x \<le> y \<Longrightarrow> js_round x \<le> js_round y"
  by (simp add: js_round_def floor_mono)

lemma percent_mono: "c \<le> c' \<Longrightarrow> percent c t \<le> percent c' t"
proof -
  assume "c \<le> c'"
  then have "(of_nat c :: rat) / of_nat t \<le> of_nat c' / of_nat t"
    by (simp add: divide_right_mono)
  then have "fl (of_nat c / of_nat t) \<le> fl (of_nat c' / of_nat t)"
    by (intro fl_mono) simp_all
  moreover have "0 \<le> fl (of_nat c / of_nat t)"
    by (intro fl_nonneg) simp
  ultimately have "fl (fl (of_nat c / of_nat t) * 100) \<le> fl (fl (of_nat c' / of_nat t) * 100)"
    by (intro fl_mono) simp_all
  then have "js_round (fl (fl (of_nat c / of_nat t) * 100))
      \<le> js_round (fl (fl (of_nat c' / of_nat t) * 100))"
    by (rule js_round_mono)
  then show ?thesis
    unfolding percent_def by linarith
qed

lemma percent_bounds: "1 \<le> percent c t" "percent c t \<le> 99"
  by (simp_all add: percent_def)

lemma pull_length: "length (pull t c xs) = length xs"
  by (induction xs arbitrary: c) simp_all

lemma pull_lower: "p \<in> set (pull t c xs) \<Longrightarrow> percent c t \<le> p"
proof (induction xs arbitrary: c)
  case Nil
  then show ?case by simp
next
  case (Cons x xs)
  have step: "percent c t \<le> percent (c + x) t" by (rule percent_mono) simp
  from Cons.prems have "p = percent (c + x) t \<or> p \<in> set (pull t (c + x) xs)" by simp
  then show ?case
  proof
    assume "p = percent (c + x) t" with step show ?thesis by simp
  next
    assume "p \<in> set (pull t (c + x) xs)"
    from Cons.IH [OF this] step show ?thesis by linarith
  qed
qed

lemma pull_sorted: "sorted (pull t c xs)"
  by (induction xs arbitrary: c) (auto dest: pull_lower)

lemma pull_range: "p \<in> set (pull t c xs) \<Longrightarrow> 1 \<le> p \<and> p \<le> 99"
  by (induction xs arbitrary: c) (auto simp: percent_bounds)

lemma pull_nth:
  "k < length xs \<Longrightarrow> pull t c xs ! k = percent (c + sum_list (take (Suc k) xs)) t"
proof (induction xs arbitrary: c k)
  case Nil
  then show ?case by simp
next
  case (Cons x xs)
  show ?case
  proof (cases k)
    case 0
    then show ?thesis by simp
  next
    case (Suc j)
    with Cons.prems have "j < length xs" by simp
    from Cons.IH [OF this, of "c + x"] Suc show ?thesis by (simp add: add.assoc)
  qed
qed

text \<open>
  A streamed transfer whose headers were built: which chunk reports come before the
  function ends and which after it, and when the function returns normally. The request
  whose answer the function acts on is the streamed one, or the whole-file one after the
  streamed one threw.
\<close>

lemma streamed_run:
  assumes "file_size f \<noteq> 0" and "file_has_stream f"
    and "get_prop signed ''headers'' = Inr init" and "Headers_init init = None"
  shows "reported (uploadFileDirectToGcs f signed env) =
           take (read_early env
                 + (case streamed_fetch env of
                      FetchThrows e \<Rightarrow> read_during_fallback env
                    | FetchResponse r \<Rightarrow> 0))
             (pull (file_size f) 0 (chunks env))
           @ (if outcome (uploadFileDirectToGcs f signed env) = Inr () then [100] else [])"
    and "late (uploadFileDirectToGcs f signed env) =
           drop (read_early env
                 + (case streamed_fetch env of
                      FetchThrows e \<Rightarrow> read_during_fallback env
                    | FetchResponse r \<Rightarrow> 0))
             (pull (file_size f) 0 (chunks env))"
    and "outcome (uploadFileDirectToGcs f signed env) = Inr () \<longleftrightarrow>
           (\<exists>r. resp_ok r \<and>
              (streamed_fetch env = FetchResponse r
               \<or> (\<exists>e. streamed_fetch env = FetchThrows e) \<and> buffered_fetch env = FetchResponse r))"
  using assms
  by (auto simp: uploadFileDirectToGcs_def Let_def take_add add.commute
      split: fetch_result.splits)

text \<open>
  Claim C2. For a non-empty file that can be streamed, once the request headers are
  built: the value reported after the \<open>k\<close>-th chunk is
  \<open>min 99 (max 1 (round (counted / total * 100)))\<close>, where \<open>counted\<close> is the sum of the byte
  lengths of the chunks read so far, \<open>total\<close> the file size, and the division, the
  multiplication and the rounding are those of JavaScript numbers. These values are
  non-decreasing and lie between 1 and 99. The transfer passes them to the callback in
  this order, some before it ends and the others after, and passes nothing else except
  100, once, and only when the request it acts on was answered with a success status:
  100 then follows the values reported before that answer.
\<close>

theorem streamed_progress:
  assumes "0 < file_size f" and "file_has_stream f"
    and "get_prop signed ''headers'' = Inr init" and "Headers_init init = None"
  shows "length (pull (file_size f) 0 (chunks env)) = length (chunks env)
       \<and> (\<forall>k < length (chunks env).
             pull (file_size f) 0 (chunks env) ! k =
               min 99 (max 1 (js_round (fl (fl (of_nat (sum_list (take (Suc k) (chunks env)))
                                                / of_nat (file_size f)) * 100)))))
       \<and> sorted (pull (file_size f) 0 (chunks env))
       \<and> (\<forall>p \<in> set (pull (file_size f) 0 (chunks env)). 1 \<le> p \<and> p \<le> 99)
       \<and> (\<exists>n. reported (uploadFileDirectToGcs f signed env) =
                 take n (pull (file_size f) 0 (chunks env))
                 @ (if \<exists>r. resp_ok r \<and>
                         (streamed_fetch env = FetchResponse r
                          \<or> (\<exists>e. streamed_fetch env = FetchThrows e)
                             \<and> buffered_fetch env = FetchResponse r)
                    then [100] else [])
               \<and> late (uploadFileDirectToGcs f signed env) =
                 drop n (pull (file_size f) 0 (chunks env)))
       \<and> (100 \<in> set (reported (uploadFileDirectToGcs f signed env)
                       @ late (uploadFileDirectToGcs f signed env))
            \<longleftrightarrow> (\<exists>r. resp_ok r \<and>
                   (streamed_fetch env = FetchResponse r
                    \<or> (\<exists>e. streamed_fetch env = FetchThrows e)
                       \<and> buffered_fetch env = FetchResponse r)))"
proof -
  let ?seen = "pull (file_size f) 0 (chunks env)"
  let ?run = "uploadFileDirectToGcs f signed env"
  let ?ok = "\<exists>r. resp_ok r \<and>
                   (streamed_fetch env = FetchResponse r
                    \<or> (\<exists>e. streamed_fetch env = FetchThrows e)
                       \<and> buffered_fetch env = FetchResponse r)"
  from assms(1) have size: "file_size f \<noteq> 0" by simp
  note run = streamed_run [OF size assms(2-4), of env]
  have below: "100 \<notin> set ?seen"
    using pull_range [of 100 "file_size f" 0 "chunks env"] by auto
  then have parts: "100 \<notin> set (take n ?seen)" "100 \<notin> set (drop n ?seen)" for n
    by (auto dest: in_set_takeD in_set_dropD)
  have shape: "\<exists>n. reported ?run = take n ?seen @ (if ?ok then [100] else [])
      \<and> late ?run = drop n ?seen"
    using run(1) run(2) unfolding run(3) by blast
  have full: "100 \<in> set (reported ?run @ late ?run) \<longleftrightarrow> ?ok"
  proof -
    from shape obtain n where "reported ?run = take n ?seen @ (if ?ok then [100] else [])"
      and "late ?run = drop n ?seen" by blast
    then show ?thesis using parts [of n] below by (cases ?ok) simp_all
  qed
  have first: "length ?seen = length (chunks env)" by (rule pull_length)
  have each: "\<forall>k < length (chunks env).
             ?seen ! k =
               min 99 (max 1 (js_round (fl (fl (of_nat (sum_list (take (Suc k) (chunks env)))
                                                / of_nat (file_size f)) * 100))))"
    by (simp add: pull_nth percent_def)
  have range: "\<forall>p \<in> set ?seen. 1 \<le> p \<and> p \<le> 99"
    using pull_range by blast
  from first each pull_sorted [of "file_size f" 0 "chunks env"] range shape full
  show ?thesis by blast
qed

lemma bitlen_numeral: "bitlen (numeral n) = bitlen (numeral n div 2) + 1" "bitlen 1 = 1"
  by (subst compute_bitlen, simp)+

lemma js_round_of_int: "js_round (of_int n) = n"
  unfolding js_round_def by (rule floor_unique) simp_all

lemma js_round_numeral: "js_round (numeral n) = numeral n"
  using js_round_of_int [of "numeral n"] by simp

lemma fl_examples:
  "fl (1 / 4) = 1 / 4" "fl 25 = 25" "fl (1 / 2) = 1 / 2" "fl 50 = 50" "fl 1 = 1" "fl 100 = 100"
  by (simp_all add: fl_def ilog2_def rne_def bitlen_numeral)

lemma plain_grant_headers:
  "get_prop plain_grant ''headers'' = Inr (Some (JObj [(''Content-Type'', JStr ''image/png'')]))"
  "Headers_init (Some (JObj [(''Content-Type'', JStr ''image/png'')])) = None"
  by code_simp+

theorem streamed_progress_witness:
  "0 < file_size a_png \<and> file_has_stream a_png
   \<and> get_prop plain_grant ''headers'' = Inr (Some (JObj [(''Content-Type'', JStr ''image/png'')]))
   \<and> Headers_init (Some (JObj [(''Content-Type'', JStr ''image/png'')])) = None
   \<and> reported (uploadFileDirectToGcs a_png plain_grant stream_ok) = [25, 50, 99, 100]
   \<and> late (uploadFileDirectToGcs a_png plain_grant stream_ok) = []
   \<and> reported (uploadFileDirectToGcs a_png plain_grant stream_late) = [25, 100]
   \<and> late (uploadFileDirectToGcs a_png plain_grant stream_late) = [50]"
  using streamed_progress [of a_png plain_grant
      "Some (JObj [(''Content-Type'', JStr ''image/png'')])" stream_ok]
  by (simp add: plain_grant_headers a_png_def stream_ok_def stream_late_def answered_def resp_ok_def
      uploadFileDirectToGcs_def percent_def fl_examples js_round_numeral)

section \<open>Fallback to the whole-file transfer\<close>

text \<open>
  Claim C3. When the streamed request of a transfer throws, the transfer issues exactly
  two requests: the streamed one and then one whole-file request; the streamed request is
  not issued again. If the whole-file request answers with a success status, the transfer
  reports 100, as the last value before it returns, and returns normally. If it answers
  with another status, the transfer throws an \<open>Error\<close> whose message carries that status
  and 100 is never reported. If it throws, the transfer throws the same value and 100 is
  never reported. No third request is made in any case. The chunks that the tracked
  stream reads by itself are reported as they come, before or after the transfer ends.
\<close>

theorem streamed_throw_falls_back_once:
  assumes "file_size f \<noteq> 0" and "file_has_stream f"
    and "get_prop signed ''headers'' = Inr init" and "Headers_init init = None"
    and "streamed_fetch env = FetchThrows e"
  shows "requests (uploadFileDirectToGcs f signed env) = [StreamedBody, WholeFile]
       \<and> (\<forall>r. buffered_fetch env = FetchResponse r \<and> resp_ok r \<longrightarrow>
             outcome (uploadFileDirectToGcs f signed env) = Inr ()
             \<and> reported (uploadFileDirectToGcs f signed env) =
                 take (read_early env + read_during_fallback env)
                   (pull (file_size f) 0 (chunks env)) @ [100]
             \<and> 100 \<notin> set (late (uploadFileDirectToGcs f signed env)))
       \<and> (\<forall>r. buffered_fetch env = FetchResponse r \<and> \<not> resp_ok r \<longrightarrow>
             outcome (uploadFileDirectToGcs f signed env) =
               Inl (JsError (''GCS upload failed with '' @ show_nat (resp_status r)))
             \<and> 100 \<notin> set (reported (uploadFileDirectToGcs f signed env)
                            @ late (uploadFileDirectToGcs f signed env)))
       \<and> (\<forall>e'. buffered_fetch env = FetchThrows e' \<longrightarrow>
             outcome (uploadFileDirectToGcs f signed env) = Inl e'
             \<and> 100 \<notin> set (reported (uploadFileDirectToGcs f signed env)
                            @ late (uploadFileDirectToGcs f signed env)))
       \<and> late (uploadFileDirectToGcs f signed env) =
           drop (read_early env + read_during_fallback env) (pull (file_size f) 0 (chunks env))"
proof -
  let ?seen = "pull (file_size f) 0 (chunks env)"
  let ?run = "uploadFileDirectToGcs f signed env"
  let ?n = "read_early env + read_during_fallback env"
  have below: "100 \<notin> set ?seen"
    using pull_range [of 100 "file_size f" 0 "chunks env"] by auto
  then have parts: "100 \<notin> set (take ?n ?seen)" "100 \<notin> set (drop ?n ?seen)"
    by (auto dest: in_set_takeD in_set_dropD)
  have req: "requests ?run = [StreamedBody, WholeFile]"
    using assms by (simp add: uploadFileDirectToGcs_def Let_def split: fetch_result.splits)
  have lat: "late ?run = drop ?n ?seen"
    using streamed_run(2) [OF assms(1-4), of env] assms(5) by simp
  have rep: "reported ?run = take ?n ?seen @ (if outcome ?run = Inr () then [100] else [])"
    using streamed_run(1) [OF assms(1-4), of env] assms(5) by simp
  have ok: "outcome ?run = Inr ()" if "buffered_fetch env = FetchResponse r" "resp_ok r" for r
    using assms that by (simp add: uploadFileDirectToGcs_def Let_def)
  have bad: "outcome ?run = Inl (JsError (''GCS upload failed with '' @ show_nat (resp_status r)))"
    if "buffered_fetch env = FetchResponse r" "\<not> resp_ok r" for r
    using assms that by (simp add: uploadFileDirectToGcs_def Let_def gcs_failed_def)
  have thr: "outcome ?run = Inl e'" if "buffered_fetch env = FetchThrows e'" for e'
    using assms that by (simp add: uploadFileDirectToGcs_def Let_def)
  have none: "100 \<notin> set (reported ?run @ late ?run)" if "outcome ?run = Inl x" for x
    using rep lat parts below that by simp
  have A: "\<forall>r. buffered_fetch env = FetchResponse r \<and> resp_ok r \<longrightarrow>
             outcome ?run = Inr () \<and> reported ?run = take ?n ?seen @ [100]
             \<and> 100 \<notin> set (late ?run)"
  proof (intro allI impI)
    fix r assume "buffered_fetch env = FetchResponse r \<and> resp_ok r"
    then have "outcome ?run = Inr ()" using ok by blast
    then show "outcome ?run = Inr () \<and> reported ?run = take ?n ?seen @ [100]
             \<and> 100 \<notin> set (late ?run)"
      using rep lat parts by simp
  qed
  have B: "\<forall>r. buffered_fetch env = FetchResponse r \<and> \<not> resp_ok r \<longrightarrow>
             outcome ?run = Inl (JsError (''GCS upload failed with '' @ show_nat (resp_status r)))
             \<and> 100 \<notin> set (reported ?run @ late ?run)"
    using bad none by blast
  have C: "\<forall>e'. buffered_fetch env = FetchThrows e' \<longrightarrow>
             outcome ?run = Inl e' \<and> 100 \<notin> set (reported ?run @ late ?run)"
    using thr none by blast
  from req A B C lat show ?thesis by blast
qed

theorem streamed_throw_falls_back_once_witness:
  "file_size a_png \<noteq> 0 \<and> file_has_stream a_png
   \<and> get_prop plain_grant ''headers'' = Inr (Some (JObj [(''Content-Type'', JStr ''image/png'')]))
   \<and> Headers_init (Some (JObj [(''Content-Type'', JStr ''image/png'')])) = None
   \<and> streamed_fetch fallback_ok = FetchThrows (JsError ''duplex not supported'')
   \<and> streamed_fetch fallback_403 = FetchThrows (JsError ''duplex not supported'')
   \<and> uploadFileDirectToGcs a_png plain_grant fallback_ok
       = \<lparr>requests = [StreamedBody, WholeFile], reported = [100], late = [25],
          outcome = Inr ()\<rparr>
   \<and> uploadFileDirectToGcs a_png plain_grant fallback_403
       = \<lparr>requests = [StreamedBody, WholeFile], reported = [], late = [25],
          outcome = Inl (JsError ''GCS upload failed with 403'')\<rparr>"
proof -
  have n: "show_nat 403 = ''403''" by code_simp
  show ?thesis
    using streamed_throw_falls_back_once [of a_png plain_grant
        "Some (JObj [(''Content-Type'', JStr ''image/png'')])" fallback_ok
        "JsError ''duplex not supported''"]
    by (simp add: plain_grant_headers a_png_def fallback_ok_def fallback_403_def answered_def
        resp_ok_def uploadFileDirectToGcs_def gcs_failed_def n percent_def fl_examples
        js_round_numeral)
qed

section \<open>Failures stay inside the per-item worker\<close>

lemma try_block_no_error: "filter is_ToError (fst (try_block item header env)) = []"
  by (simp add: try_block_def Let_def filter_empty_conv split: sum.splits) auto

lemma stale_no_error: "filter is_ToError (stale_updates item header env) = []"
  by (simp add: stale_updates_def filter_empty_conv split: sum.splits) auto

lemma try_block_throws:
  "snd (try_block item header env) = Inl e \<longleftrightarrow>
     requestSignedUrl (item_file item) header (grant_fetch env) = Inl e
     \<or> (\<exists>signed. requestSignedUrl (item_file item) header (grant_fetch env) = Inr signed
          \<and> outcome (uploadFileDirectToGcs (item_file item) signed (transfer env)) = Inl e)"
  by (auto simp: try_block_def Let_def split: sum.splits)

lemma uploadSingle_returns: "snd (uploadSingle item header env) = Inr ()"
  by (simp add: uploadSingle_def split: prod.splits sum.splits)

lemma uploadSingle_on_throw:
  "snd (try_block item header env) = Inl e \<Longrightarrow>
   fst (uploadSingle item header env) =
     (ToSigning # fst (try_block item header env)) @ [ToError (message_of e)]
       @ stale_updates item header env"
  by (cases "try_block item header env") (simp add: uploadSingle_def)

lemma to_error_at:
  "k < length current \<Longrightarrow>
   updateItem i (apply_updater (ToError m)) current ! k =
     (if item_id (current ! k) = i then (current ! k)\<lparr>status := Error, error := Some m\<rparr>
      else current ! k)"
  by (simp add: updateItem_def)

text \<open>
  Claim C5. Whenever the grant request or the transfer throws a value \<open>e\<close> (a failed
  request, a failure status, a grant whose headers cannot be built), the promise of
  \<open>uploadSingle\<close> is still fulfilled, and among the updates it issues there is exactly one
  error update; it carries the message of \<open>e\<close> when \<open>e\<close> is an \<open>Error\<close> and \<open>Upload failed\<close>
  otherwise. Applied to any queue, that update leaves the progress of every item as it
  was, sets status and message of the items with this id, and leaves every other item
  unchanged.
\<close>

theorem uploadSingle_catches:
  assumes "requestSignedUrl (item_file item) header (grant_fetch env) = Inl e
     \<or> (\<exists>signed. requestSignedUrl (item_file item) header (grant_fetch env) = Inr signed
          \<and> outcome (uploadFileDirectToGcs (item_file item) signed (transfer env)) = Inl e)"
  shows "snd (uploadSingle item header env) = Inr ()
       \<and> filter is_ToError (fst (uploadSingle item header env)) = [ToError (message_of e)]
       \<and> message_of e = (case e of JsError m \<Rightarrow> m | JsOther \<Rightarrow> ''Upload failed'')
       \<and> length (updateItem (item_id item) (apply_updater (ToError (message_of e))) current)
           = length current
       \<and> (\<forall>k < length current.
             progress (updateItem (item_id item) (apply_updater (ToError (message_of e))) current ! k)
               = progress (current ! k)
             \<and> (item_id (current ! k) = item_id item \<longrightarrow>
                  status (updateItem (item_id item) (apply_updater (ToError (message_of e))) current ! k)
                    = Error
                  \<and> error (updateItem (item_id item) (apply_updater (ToError (message_of e))) current ! k)
                    = Some (message_of e))
             \<and> (item_id (current ! k) \<noteq> item_id item \<longrightarrow>
                  updateItem (item_id item) (apply_updater (ToError (message_of e))) current ! k
                    = current ! k))"
proof -
  from assms have thrown: "snd (try_block item header env) = Inl e"
    by (simp add: try_block_throws)
  have script: "filter is_ToError (fst (uploadSingle item header env)) = [ToError (message_of e)]"
    unfolding uploadSingle_on_throw [OF thrown]
    by (simp add: try_block_no_error stale_no_error)
  have msg: "message_of e = (case e of JsError m \<Rightarrow> m | JsOther \<Rightarrow> ''Upload failed'')"
    by (cases e) simp_all
  show ?thesis
    using script msg by (simp add: uploadSingle_returns updateItem_length to_error_at)
qed

lemma null_grant_transfer:
  "uploadFileDirectToGcs f JNull env =
     \<lparr>requests = [], reported = [], late = [],
      outcome = Inl (JsError ''Cannot read properties of null'')\<rparr>"
  by (simp add: uploadFileDirectToGcs_def)

theorem uploadSingle_catches_witness:
  "requestSignedUrl (item_file (items mixed_queue ! 1)) ''demo-user-123''
       (grant_fetch \<lparr>grant_fetch = FetchThrows JsOther, transfer = idle_transfer\<rparr>) = Inl JsOther
   \<and> uploadSingle (items mixed_queue ! 1) ''demo-user-123''
         \<lparr>grant_fetch = FetchThrows JsOther, transfer = idle_transfer\<rparr>
       = ([ToSigning, ToError ''Upload failed''], Inr ())
   \<and> uploadSingle (items mixed_queue ! 1) ''demo-user-123''
         \<lparr>grant_fetch = grant_of JNull, transfer = idle_transfer\<rparr>
       = ([ToSigning, ToUploading JNull, ToError ''Cannot read properties of null''], Inr ())
   \<and> uploadSingle (items mixed_queue ! 1) ''demo-user-123''
         \<lparr>grant_fetch = grant_of plain_grant, transfer = fallback_403\<rparr>
       = ([ToSigning, ToUploading plain_grant, ToError ''GCS upload failed with 403'',
           OnProgress 25], Inr ())
   \<and> map progress (updateItem ''id-u'' (apply_updater (ToError ''Upload failed'')) (items mixed_queue))
       = [100, 40, 5]
   \<and> map status (updateItem ''id-u'' (apply_updater (ToError ''Upload failed'')) (items mixed_queue))
       = [Success, Error, Error]"
proof -
  have n: "show_nat 403 = ''403''" by code_simp
  have late: "uploadFileDirectToGcs a_png plain_grant fallback_403
       = \<lparr>requests = [StreamedBody, WholeFile], reported = [], late = [25],
          outcome = Inl (JsError ''GCS upload failed with 403'')\<rparr>"
    by (simp add: plain_grant_headers a_png_def fallback_403_def answered_def
        resp_ok_def uploadFileDirectToGcs_def gcs_failed_def n percent_def fl_examples
        js_round_numeral)
  have wait: "read_before_update fallback_403 = 0"
    by (simp add: fallback_403_def)
  show ?thesis
    using uploadSingle_catches [of "items mixed_queue ! 1" "''demo-user-123''"
      "\<lparr>grant_fetch = FetchThrows JsOther, transfer = idle_transfer\<rparr>" JsOther "items mixed_queue"]
    by (simp add: mixed_queue_def requestSignedUrl_def uploadSingle_def try_block_def
        stale_updates_def updateItem_def grant_of_def resp_ok_def null_grant_transfer late wait)
qed

section \<open>Notifying the observer\<close>

lemma uploadedFiles_filter_map:
  "uploadedFiles its =
     map (\<lambda>item. \<lparr>uf_objectName = the (objectName item), uf_publicUrl = the (publicUrl item),
                   uf_fileName = file_name (item_file item),
                   uf_contentType = (if file_type (item_file item) = [] then ''application/octet-stream''
                                     else file_type (item_file item)),
                   uf_size = file_size (item_file item)\<rparr>)
       (filter (\<lambda>item. status item = Success \<and> publicUrl item \<noteq> None \<and> objectName item \<noteq> None) its)"
  by (induction its)
     (auto simp: uploadedFiles_def List.map_filter_simps or_else_def DEFAULT_CONTENT_TYPE_def
       split: option.splits)

lemma uploadedFiles_updateItem:
  assumes "\<forall>item \<in> set its. item_id item = i \<longrightarrow> as_uploaded (f item) = as_uploaded item"
  shows "uploadedFiles (updateItem i f its) = uploadedFiles its"
  using assms
  by (induction its) (auto simp add: uploadedFiles_def updateItem_def List.map_filter_simps simp del: as_uploaded.simps split: option.splits)

lemma notify_effect_same_signature:
  "uploadedSignature (uploadedFiles its') = uploadedSignature (uploadedFiles its) \<Longrightarrow>
   notify_effect b (notify_effect True r its) its' = notify_effect True r its"
  by (simp add: notify_effect_def)

text \<open>
  Claim C6, as the code has it. The derived list is the queue-ordered list of the items
  with status \<open>Success\<close> whose \<open>objectName\<close> and \<open>publicUrl\<close> are present, each mapped to
  its object name, public URL, file name, content type and size; its signature is the
  object names joined with \<open>::\<close>. One evaluation of the effect calls the observer once
  with the derived list when the signature differs from the one stored at the last
  call (the empty string at first), and not at all otherwise or when no observer is
  set. So a following evaluation whose derived list has the same signature never
  notifies again, in particular after an update of an item that changes nothing of
  what the derived list shows. Distinct lists are told apart by their signatures only.
\<close>

theorem notify_once_per_signature:
  shows "notified (notify_effect True r its) =
           notified r @ (if uploadedSignatureRef r = uploadedSignature (uploadedFiles its) then []
                         else [uploadedFiles its])
       \<and> uploadedSignatureRef (notify_effect True r its) = uploadedSignature (uploadedFiles its)
       \<and> notify_effect False r its = r
       \<and> (uploadedSignature (uploadedFiles its') = uploadedSignature (uploadedFiles its) \<longrightarrow>
            notify_effect b (notify_effect True r its) its' = notify_effect True r its)
       \<and> ((\<forall>item \<in> set its. item_id item = i \<longrightarrow> as_uploaded (f item) = as_uploaded item) \<longrightarrow>
            notify_effect b (notify_effect True r its) (updateItem i f its) = notify_effect True r its)
       \<and> uploadedFiles its =
           map (\<lambda>item. \<lparr>uf_objectName = the (objectName item), uf_publicUrl = the (publicUrl item),
                   uf_fileName = file_name (item_file item),
                   uf_contentType = (if file_type (item_file item) = [] then ''application/octet-stream''
                                     else file_type (item_file item)),
                   uf_size = file_size (item_file item)\<rparr>)
             (filter (\<lambda>item. status item = Success \<and> publicUrl item \<noteq> None \<and> objectName item \<noteq> None) its)
       \<and> uploadedSignature (uploadedFiles its) = join ''::'' (map uf_objectName (uploadedFiles its))"
proof -
  have same: "notify_effect b (notify_effect True r its) (updateItem i f its) = notify_effect True r its"
    if "\<forall>item \<in> set its. item_id item = i \<longrightarrow> as_uploaded (f item) = as_uploaded item"
    using uploadedFiles_updateItem [OF that] by (simp add: notify_effect_same_signature)
  have first: "notified (notify_effect True r its) =
           notified r @ (if uploadedSignatureRef r = uploadedSignature (uploadedFiles its) then []
                         else [uploadedFiles its])"
     "uploadedSignatureRef (notify_effect True r its) = uploadedSignature (uploadedFiles its)"
     "notify_effect False r its = r"
    by (simp_all add: notify_effect_def)
  show ?thesis
    using same first notify_effect_same_signature [of its' its b r] uploadedFiles_filter_map [of its]
    by (simp add: uploadedSignature_def)
qed

theorem notify_once_per_signature_witness:
  "notified (notify_effect True reconciler_init (items mixed_queue)) = [uploadedFiles (items mixed_queue)]
   \<and> list_all (\<lambda>item. item_id item \<noteq> ''id-u''
          \<or> as_uploaded (apply_updater (OnProgress 41) item) = as_uploaded item) (items mixed_queue)
   \<and> notified (notify_effect True (notify_effect True reconciler_init (items mixed_queue))
         (updateItem ''id-u'' (apply_updater (OnProgress 41)) (items mixed_queue)))
       = [uploadedFiles (items mixed_queue)]"
  using notify_once_per_signature [of reconciler_init "items mixed_queue"
      "updateItem ''id-u'' (apply_updater (OnProgress 41)) (items mixed_queue)" True
      "''id-u''" "apply_updater (OnProgress 41)"]
  by (simp add: notify_effect_def reconciler_init_def uploadedFiles_def uploadedSignature_def
      mixed_queue_def updateItem_def List.map_filter_simps)

text \<open>
  The claim as stated promises a notification for every distinct derived list. The
  list with the one object name \<open>a::b\<close> and the list with the two object names \<open>a\<close> and
  \<open>b\<close> are distinct and have the same signature: after the first has been notified, the
  second is not.
\<close>

theorem notify_distinct_lists_counterexample:
  "uploadedFiles split_names \<noteq> uploadedFiles joined_names
   \<and> notified (notify_effect True reconciler_init joined_names) = [uploadedFiles joined_names]
   \<and> notified (notify_effect True (notify_effect True reconciler_init joined_names) split_names)
       = [uploadedFiles joined_names]"
  by (simp add: notify_effect_def reconciler_init_def uploadedFiles_def uploadedSignature_def
      joined_names_def split_names_def done_item_def List.map_filter_simps)

section \<open>The worker pool claims every entry once, in order\<close>

lemma awaited_update_running:
  "w < length (workers p) \<Longrightarrow>
   awaited {} (p\<lparr>workers := (workers p)[w := st]\<rparr>) =
     awaited {w} p \<union> (case st of Awaiting i \<Rightarrow> {i} | _ \<Rightarrow> {})"
  by (auto simp: awaited_def nth_list_update split: worker_state.splits)

lemma awaited_fields [simp]:
  "awaited R (p\<lparr>nextIndex := k\<rparr>) = awaited R p"
  "awaited R (p\<lparr>claimed := c\<rparr>) = awaited R p"
  "awaited R (p\<lparr>invoked := iv\<rparr>) = awaited R p"
  "awaited R (p\<lparr>settled := sv\<rparr>) = awaited R p"
  by (simp_all add: awaited_def)

lemma Returned_update:
  "Returned \<in> set (ws[w := st]) \<Longrightarrow> st \<noteq> Returned \<Longrightarrow> Returned \<in> set ws"
  using set_update_subset_insert [of ws w st] by auto

lemma pool_invI:
  assumes "length (workers p) = n" and "nextIndex p \<le> length entries"
    and "map snd (claimed p) = [0..<nextIndex p]" and "\<forall>c \<in> set (claimed p). fst c < n"
    and "invoked p = filter (\<lambda>i. entries ! i \<noteq> None) [0..<nextIndex p]"
    and "set (invoked p) = set (settled p) \<union> awaited running p"
    and "Returned \<in> set (workers p) \<longrightarrow> nextIndex p = length entries"
  shows "pool_inv entries n running p"
  unfolding pool_inv_def using assms by blast

lemma pool_invD:
  assumes "pool_inv entries n running p"
  shows "length (workers p) = n" and "nextIndex p \<le> length entries"
    and "map snd (claimed p) = [0..<nextIndex p]" and "\<forall>c \<in> set (claimed p). fst c < n"
    and "invoked p = filter (\<lambda>i. entries ! i \<noteq> None) [0..<nextIndex p]"
    and "set (invoked p) = set (settled p) \<union> awaited running p"
    and "Returned \<in> set (workers p) \<longrightarrow> nextIndex p = length entries"
  using assms unfolding pool_inv_def by blast+

lemma advance_inv:
  "pool_inv entries n {w} p \<Longrightarrow> w < n \<Longrightarrow> pool_inv entries n {} (advance entries w p)"
proof (induction entries w p rule: advance.induct)
  case (1 entries w p)
  note inv = pool_invD [OF "1.prems"(1)] and w = "1.prems"(2)
  show ?case
  proof (cases "nextIndex p < length entries")
    case False
    with inv(2) have full: "nextIndex p = length entries" by simp
    have eq: "advance entries w p = p\<lparr>workers := (workers p)[w := Returned]\<rparr>"
      using False by (simp add: advance.simps)
    have "pool_inv entries n {} (p\<lparr>workers := (workers p)[w := Returned]\<rparr>)"
    proof (rule pool_invI)
      show "set (invoked (p\<lparr>workers := (workers p)[w := Returned]\<rparr>)) =
            set (settled (p\<lparr>workers := (workers p)[w := Returned]\<rparr>))
              \<union> awaited {} (p\<lparr>workers := (workers p)[w := Returned]\<rparr>)"
        using inv(6) inv(1) w by (simp add: awaited_update_running)
    qed (use inv full in simp_all)
    with eq show ?thesis by simp
  next
    case True
    with inv(7) have noret: "Returned \<notin> set (workers p)" by auto
    let ?i = "nextIndex p"
    let ?p' = "p\<lparr>nextIndex := ?i + 1, claimed := claimed p @ [(w, ?i)]\<rparr>"
    show ?thesis
    proof (cases "entries ! ?i")
      case None
      have mid: "pool_inv entries n {w} ?p'"
      proof (rule pool_invI)
        show "invoked ?p' = filter (\<lambda>i. entries ! i \<noteq> None) [0..<nextIndex ?p']"
          using inv(5) None by simp
        show "set (invoked ?p') = set (settled ?p') \<union> awaited {w} ?p'"
          using inv(6) by simp
      qed (use inv w True noret in simp_all)
      have "advance entries w p = advance entries w ?p'"
        using True None by (subst advance.simps) (simp add: Let_def)
      moreover have "pool_inv entries n {} (advance entries w ?p')"
        using "1.IH" [OF True refl refl None mid w] .
      ultimately show ?thesis by simp
    next
      case (Some entry)
      let ?q = "?p'\<lparr>workers := (workers ?p')[w := Awaiting ?i], invoked := invoked ?p' @ [?i]\<rparr>"
      have eq: "advance entries w p = ?q"
        using True Some by (subst advance.simps) (simp add: Let_def)
      have "pool_inv entries n {} ?q"
      proof (rule pool_invI)
        have "awaited {} ?q = awaited {} (p\<lparr>workers := (workers p)[w := Awaiting ?i]\<rparr>)"
          by (simp add: awaited_def)
        also have "\<dots> = awaited {w} p \<union> {?i}"
          using w inv(1) by (simp add: awaited_update_running)
        finally show "set (invoked ?q) = set (settled ?q) \<union> awaited {} ?q"
          using inv(6) by auto
        show "invoked ?q = filter (\<lambda>i. entries ! i \<noteq> None) [0..<nextIndex ?q]"
          using inv(5) Some by simp
        show "Returned \<in> set (workers ?q) \<longrightarrow> nextIndex ?q = length entries"
          using noret Returned_update [of "workers p" w "Awaiting ?i"] by auto
      qed (use inv w True in simp_all)
      with eq show ?thesis by simp
    qed
  qed
qed

lemma advance_others: "v \<noteq> w \<Longrightarrow> workers (advance entries w p) ! v = workers p ! v"
proof (induction entries w p rule: advance.induct)
  case (1 entries w p)
  show ?case
  proof (cases "nextIndex p < length entries")
    case False
    then show ?thesis using "1.prems" by (simp add: advance.simps)
  next
    case True
    let ?p' = "p\<lparr>nextIndex := nextIndex p + 1, claimed := claimed p @ [(w, nextIndex p)]\<rparr>"
    show ?thesis
    proof (cases "entries ! nextIndex p")
      case None
      have "advance entries w p = advance entries w ?p'"
        using True None by (subst advance.simps) (simp add: Let_def)
      with "1.IH" [OF True refl refl None "1.prems"] show ?thesis by simp
    next
      case (Some entry)
      then show ?thesis using True "1.prems" by (subst advance.simps) (simp add: Let_def)
    qed
  qed
qed

lemma inv_enter_idle:
  assumes "pool_inv entries n {} p" and "w < n" and "\<forall>i. workers p ! w \<noteq> Awaiting i"
  shows "pool_inv entries n {w} p"
proof -
  note inv = pool_invD [OF assms(1)]
  have "awaited {w} p = awaited {} p"
    using assms(3) by (auto simp: awaited_def)
  with inv show ?thesis by (intro pool_invI) simp_all
qed

lemma inv_enter_settled:
  assumes "pool_inv entries n {} p" and "w < n" and "workers p ! w = Awaiting i"
  shows "pool_inv entries n {w} (p\<lparr>settled := settled p @ [i]\<rparr>)"
proof -
  note inv = pool_invD [OF assms(1)]
  have "awaited {} p = awaited {w} p \<union> {i}"
    using assms(2,3) inv(1) by (auto simp: awaited_def)
  with inv show ?thesis by (intro pool_invI) auto
qed

lemma inv_reject:
  assumes "pool_inv entries n {} p" and "w < n" and "workers p ! w = Awaiting i"
  shows "pool_inv entries n {} (p\<lparr>settled := settled p @ [i], workers := (workers p)[w := Rejected]\<rparr>)"
proof -
  note inv = pool_invD [OF assms(1)]
  have a: "awaited {} p = awaited {w} p \<union> {i}"
    using assms(2,3) inv(1) by (auto simp: awaited_def)
  have "awaited {} (p\<lparr>settled := settled p @ [i], workers := (workers p)[w := Rejected]\<rparr>)
          = awaited {} (p\<lparr>workers := (workers p)[w := Rejected]\<rparr>)"
    by (simp add: awaited_def)
  also have "\<dots> = awaited {w} p"
    using assms(2) inv(1) by (simp add: awaited_update_running)
  finally have b: "awaited {} (p\<lparr>settled := settled p @ [i], workers := (workers p)[w := Rejected]\<rparr>)
          = awaited {w} p" .
  have c: "Returned \<in> set ((workers p)[w := Rejected]) \<longrightarrow> Returned \<in> set (workers p)"
    using Returned_update [of "workers p" w Rejected] by auto
  show ?thesis
  proof (rule pool_invI)
    show "set (invoked (p\<lparr>settled := settled p @ [i], workers := (workers p)[w := Rejected]\<rparr>)) =
          set (settled (p\<lparr>settled := settled p @ [i], workers := (workers p)[w := Rejected]\<rparr>))
            \<union> awaited {} (p\<lparr>settled := settled p @ [i], workers := (workers p)[w := Rejected]\<rparr>)"
      unfolding b using inv(6) a by auto
  qed (use inv c in simp_all)
qed

lemma settle_inv:
  assumes "pool_inv entries n {} p"
  shows "pool_inv entries n {} (settle entries p ev)"
proof (cases ev)
  case (Pair w fulfilled)
  note inv = pool_invD [OF assms]
  show ?thesis
  proof (cases "w < length (workers p)")
    case False
    then show ?thesis using assms Pair by (simp add: settle_def)
  next
    case True
    with inv(1) have w: "w < n" by simp
    show ?thesis
    proof (cases "workers p ! w")
      case (Awaiting i)
      show ?thesis
      proof (cases fulfilled)
        case True
        have "pool_inv entries n {} (advance entries w (p\<lparr>settled := settled p @ [i]\<rparr>))"
          by (rule advance_inv [OF inv_enter_settled [OF assms w Awaiting] w])
        then show ?thesis using Pair \<open>w < length (workers p)\<close> Awaiting True
          by (simp add: settle_def)
      next
        case False
        then show ?thesis using Pair \<open>w < length (workers p)\<close> Awaiting inv_reject [OF assms w Awaiting]
          by (simp add: settle_def)
      qed
    qed (use assms Pair True in \<open>simp_all add: settle_def\<close>)
  qed
qed

lemma start_inv:
  "pool_inv entries (nat (max 1 (min concurrency (int (length entries))))) {}
     (start entries concurrency)"
proof -
  define n where "n = nat (max 1 (min concurrency (int (length entries))))"
  define p0 where "p0 = \<lparr>nextIndex = 0, workers = replicate n NotStarted, claimed = [],
      invoked = [], settled = []\<rparr>"
  have fold: "pool_inv entries n {} (foldl (\<lambda>p w. advance entries w p) p0 [0..<k])
      \<and> (\<forall>v. k \<le> v \<and> v < n \<longrightarrow> workers (foldl (\<lambda>p w. advance entries w p) p0 [0..<k]) ! v = NotStarted)"
    if "k \<le> n" for k
    using that
  proof (induction k)
    case 0
    have "pool_inv entries n {} p0"
      by (rule pool_invI) (simp_all add: p0_def awaited_def)
    then show ?case by (simp add: p0_def)
  next
    case (Suc k)
    let ?p = "foldl (\<lambda>p w. advance entries w p) p0 [0..<k]"
    from Suc have inv: "pool_inv entries n {} ?p"
      and idle: "workers ?p ! k = NotStarted" and k: "k < n"
      and rest: "\<forall>v. k \<le> v \<and> v < n \<longrightarrow> workers ?p ! v = NotStarted"
      by simp_all
    have "pool_inv entries n {} (advance entries k ?p)"
      by (rule advance_inv [OF inv_enter_idle [OF inv k] k]) (simp add: idle)
    moreover have "\<forall>v. Suc k \<le> v \<and> v < n \<longrightarrow> workers (advance entries k ?p) ! v = NotStarted"
      using rest by (simp add: advance_others)
    ultimately show ?case by simp
  qed
  from fold [of n] show ?thesis
    by (simp add: start_def Let_def n_def p0_def)
qed

lemma runUploadWorkers_inv:
  "pool_inv entries (nat (max 1 (min concurrency (int (length entries))))) {}
     (runUploadWorkers entries concurrency schedule)"
proof -
  have "pool_inv entries n {} p \<Longrightarrow> pool_inv entries n {} (foldl (settle entries) p schedule)" for n p
    by (induction schedule arbitrary: p) (simp_all add: settle_inv)
  from this [OF start_inv] show ?thesis by (simp add: runUploadWorkers_def)
qed

lemma advance_effect:
  "(\<exists>j. workers (advance entries w p) = (workers p)[w := Awaiting j]
        \<and> nextIndex p < nextIndex (advance entries w p))
   \<or> (workers (advance entries w p) = (workers p)[w := Returned]
        \<and> nextIndex p \<le> nextIndex (advance entries w p))"
proof (induction entries w p rule: advance.induct)
  case (1 entries w p)
  show ?case
  proof (cases "nextIndex p < length entries")
    case False
    then show ?thesis by (simp add: advance.simps)
  next
    case True
    let ?p' = "p\<lparr>nextIndex := nextIndex p + 1, claimed := claimed p @ [(w, nextIndex p)]\<rparr>"
    show ?thesis
    proof (cases "entries ! nextIndex p")
      case None
      have eq: "advance entries w p = advance entries w ?p'"
        using True None by (subst advance.simps) (simp add: Let_def)
      from "1.IH" [OF True refl refl None] show ?thesis
        unfolding eq by auto
    next
      case (Some entry)
      have "advance entries w p =
              ?p'\<lparr>workers := (workers ?p')[w := Awaiting (nextIndex p)],
                  invoked := invoked ?p' @ [nextIndex p]\<rparr>"
        using True Some by (subst advance.simps) (simp add: Let_def)
      then show ?thesis by auto
    qed
  qed
qed

lemma waiting_update:
  "w < length ws \<Longrightarrow>
   sum_list (map waiting (ws[w := st])) + waiting (ws ! w) = sum_list (map waiting ws) + waiting st"
proof (induction ws arbitrary: w)
  case Nil
  then show ?case by simp
next
  case (Cons x xs)
  then show ?case by (cases w) auto
qed

lemma ready_update:
  "ready p \<Longrightarrow> st \<noteq> NotStarted \<Longrightarrow> st \<noteq> Rejected \<Longrightarrow>
   workers q = (workers p)[w := st] \<Longrightarrow> ready q"
  unfolding ready_def list_all_iff
  using set_update_subset_insert [of "workers p" w st] by auto

lemma settle_ready: "ready p \<Longrightarrow> ready (settle entries p (w, True))"
proof (cases "w < length (workers p)")
  case False
  assume "ready p"
  with False show ?thesis by (simp add: settle_def)
next
  case True
  assume r: "ready p"
  show ?thesis
  proof (cases "workers p ! w")
    case (Awaiting i)
    let ?q = "p\<lparr>settled := settled p @ [i]\<rparr>"
    have rq: "ready ?q" using r by (simp add: ready_def)
    have eq: "settle entries p (w, True) = advance entries w ?q"
      using True Awaiting by (simp add: settle_def)
    from advance_effect [of entries w ?q] show ?thesis
      unfolding eq using ready_update [OF rq] by (metis worker_state.distinct)
  qed (use r True in \<open>simp_all add: settle_def\<close>)
qed

lemma all_returned_fulfilled:
  "\<forall>st \<in> set (workers p). st = Returned \<Longrightarrow> pool_promise p = Fulfilled"
  by (auto simp: pool_promise_def list_all_iff list_ex_iff)

lemma ready_some_waiting:
  assumes "ready p" and "\<not> (\<forall>st \<in> set (workers p). st = Returned)"
  shows "\<exists>w i. w < length (workers p) \<and> workers p ! w = Awaiting i"
proof -
  from assms(2) obtain st where st: "st \<in> set (workers p)" "st \<noteq> Returned" by blast
  with assms(1) have "st \<noteq> NotStarted" "st \<noteq> Rejected"
    by (auto simp: ready_def list_all_iff)
  with st(2) obtain i where "st = Awaiting i" by (cases st) auto
  with st(1) show ?thesis by (auto simp: in_set_conv_nth)
qed

lemma can_finish:
  "pool_inv entries n {} p \<Longrightarrow> ready p \<Longrightarrow>
   \<exists>more. pool_promise (foldl (settle entries) p more) = Fulfilled"
proof (induction "(length entries - nextIndex p) + sum_list (map waiting (workers p))"
    arbitrary: p rule: less_induct)
  case less
  show ?case
  proof (cases "\<forall>st \<in> set (workers p). st = Returned")
    case True
    then have "pool_promise (foldl (settle entries) p []) = Fulfilled"
      by (simp add: all_returned_fulfilled)
    then show ?thesis by blast
  next
    case False
    from ready_some_waiting [OF less.prems(2) False]
    obtain w i where w: "w < length (workers p)" and at: "workers p ! w = Awaiting i" by blast
    let ?q = "p\<lparr>settled := settled p @ [i]\<rparr>"
    let ?p' = "settle entries p (w, True)"
    have eq: "?p' = advance entries w ?q"
      using w at by (simp add: settle_def)
    have inv': "pool_inv entries n {} ?p'" by (rule settle_inv [OF less.prems(1)])
    have ready': "ready ?p'" by (rule settle_ready [OF less.prems(2)])
    from pool_invD(2) [OF inv'] have le: "nextIndex ?p' \<le> length entries" .
    have smaller: "(length entries - nextIndex ?p') + sum_list (map waiting (workers ?p'))
        < (length entries - nextIndex p) + sum_list (map waiting (workers p))"
    proof -
      from advance_effect [of entries w ?q]
      consider (wait) j where "workers ?p' = (workers p)[w := Awaiting j]" "nextIndex p < nextIndex ?p'"
        | (ret) "workers ?p' = (workers p)[w := Returned]" "nextIndex p \<le> nextIndex ?p'"
        unfolding eq by auto
      then show ?thesis
      proof cases
        case wait
        from waiting_update [OF w, of "Awaiting j"] at
        have "sum_list (map waiting (workers ?p')) = sum_list (map waiting (workers p))"
          by (simp add: wait(1))
        with wait(2) le show ?thesis by linarith
      next
        case ret
        from waiting_update [OF w, of Returned] at
        have "sum_list (map waiting (workers ?p')) + 1 = sum_list (map waiting (workers p))"
          by (simp add: ret(1))
        with ret(2) show ?thesis by linarith
      qed
    qed
    from less.hyps [OF smaller inv' ready'] obtain more
      where "pool_promise (foldl (settle entries) ?p' more) = Fulfilled" by blast
    then have "pool_promise (foldl (settle entries) p ((w, True) # more)) = Fulfilled" by simp
    then show ?thesis by blast
  qed
qed

lemma start_ready: "ready (start entries concurrency)"
proof -
  define n where "n = nat (max 1 (min concurrency (int (length entries))))"
  define p0 where "p0 = \<lparr>nextIndex = 0, workers = replicate n NotStarted, claimed = [],
      invoked = [], settled = []\<rparr>"
  let ?run = "\<lambda>k. foldl (\<lambda>p w. advance entries w p) p0 [0..<k]"
  have fold: "length (workers (?run k)) = n
      \<and> (\<forall>v < k. workers (?run k) ! v \<noteq> NotStarted \<and> workers (?run k) ! v \<noteq> Rejected)"
    if "k \<le> n" for k
    using that
  proof (induction k)
    case 0
    show ?case by (simp add: p0_def)
  next
    case (Suc k)
    then have len: "length (workers (?run k)) = n"
      and before: "\<forall>v < k. workers (?run k) ! v \<noteq> NotStarted \<and> workers (?run k) ! v \<noteq> Rejected"
      and k: "k < n"
      by simp_all
    from advance_effect [of entries k "?run k"]
    obtain st where st: "workers (advance entries k (?run k)) = (workers (?run k))[k := st]"
      "st \<noteq> NotStarted" "st \<noteq> Rejected"
      by (metis worker_state.distinct)
    have "workers (?run (Suc k)) = (workers (?run k))[k := st]"
      using st(1) by simp
    with len before k st(2,3) show ?case
      by (auto simp: nth_list_update less_Suc_eq)
  qed
  from fold [of n] have "\<forall>st \<in> set (workers (?run n)). st \<noteq> NotStarted \<and> st \<noteq> Rejected"
    by (metis in_set_conv_nth order_refl)
  then show ?thesis
    by (simp add: ready_def list_all_iff start_def Let_def n_def p0_def)
qed

lemma run_ready:
  "list_all snd schedule \<Longrightarrow> ready (runUploadWorkers entries concurrency schedule)"
proof -
  have "ready p \<Longrightarrow> list_all snd schedule \<Longrightarrow> ready (foldl (settle entries) p schedule)" for p
  proof (induction schedule arbitrary: p)
    case Nil
    then show ?case by simp
  next
    case (Cons ev evs)
    obtain w where "ev = (w, True)" using Cons.prems(2) by (cases ev) auto
    with Cons show ?case by (simp add: settle_ready)
  qed
  from this [OF start_ready] show "list_all snd schedule \<Longrightarrow> ?thesis"
    by (simp add: runUploadWorkers_def)
qed

lemma run_can_finish:
  assumes "list_all snd schedule"
  shows "\<exists>more. pool_promise (runUploadWorkers entries concurrency (schedule @ more)) = Fulfilled"
proof -
  from can_finish [OF runUploadWorkers_inv run_ready [OF assms]]
  obtain more where
    "pool_promise (foldl (settle entries) (runUploadWorkers entries concurrency schedule) more) = Fulfilled"
    by blast
  then have "pool_promise (runUploadWorkers entries concurrency (schedule @ more)) = Fulfilled"
    by (simp add: runUploadWorkers_def)
  then show ?thesis by blast
qed

lemma fulfilled_all_returned:
  "pool_promise p = Fulfilled \<Longrightarrow> \<forall>st \<in> set (workers p). st = Returned"
  by (simp add: pool_promise_def list_all_iff split: if_splits)

text \<open>
  Claim C4. For every list of \<open>N\<close> entries, every configured concurrency \<open>C\<close> and every
  order in which the workers' promises settle, the pool has exactly \<open>max 1 (min C N)\<close>
  workers; the indices claimed so far are \<open>0, 1, ...\<close> up to the cursor, each once and
  in this order, each by one of these workers; and \<^verbatim>\<open>worker\<close> has been called on the
  claimed entries that are defined. When the pool's promise is fulfilled, all \<open>N\<close>
  indices have been claimed and every call of \<^verbatim>\<open>worker\<close> has settled. As long as no
  call of \<^verbatim>\<open>worker\<close> has been rejected, the calls that are still open can settle so that
  the pool's promise is fulfilled.
\<close>

theorem runUploadWorkers_claims:
  "length (workers (runUploadWorkers entries concurrency schedule))
       = nat (max 1 (min concurrency (int (length entries))))
   \<and> map snd (claimed (runUploadWorkers entries concurrency schedule))
       = [0..<nextIndex (runUploadWorkers entries concurrency schedule)]
   \<and> nextIndex (runUploadWorkers entries concurrency schedule) \<le> length entries
   \<and> (\<forall>c \<in> set (claimed (runUploadWorkers entries concurrency schedule)).
         fst c < length (workers (runUploadWorkers entries concurrency schedule)))
   \<and> invoked (runUploadWorkers entries concurrency schedule)
       = filter (\<lambda>i. entries ! i \<noteq> None)
           [0..<nextIndex (runUploadWorkers entries concurrency schedule)]
   \<and> (pool_promise (runUploadWorkers entries concurrency schedule) = Fulfilled \<longrightarrow>
         map snd (claimed (runUploadWorkers entries concurrency schedule)) = [0..<length entries]
         \<and> set (settled (runUploadWorkers entries concurrency schedule))
             = set (invoked (runUploadWorkers entries concurrency schedule)))
   \<and> (list_all snd schedule \<longrightarrow>
         (\<exists>more. pool_promise (runUploadWorkers entries concurrency (schedule @ more))
            = Fulfilled))"
proof -
  let ?p = "runUploadWorkers entries concurrency schedule"
  let ?n = "nat (max 1 (min concurrency (int (length entries))))"
  note inv = pool_invD [OF runUploadWorkers_inv [of entries concurrency schedule]]
  have fin: "map snd (claimed ?p) = [0..<length entries] \<and> set (settled ?p) = set (invoked ?p)"
    if ful: "pool_promise ?p = Fulfilled"
  proof -
    from fulfilled_all_returned [OF ful] have all: "\<forall>st \<in> set (workers ?p). st = Returned" .
    have "0 < ?n" by simp
    with inv(1) have "workers ?p \<noteq> []" by auto
    with all have "Returned \<in> set (workers ?p)" by (cases "workers ?p") auto
    with inv(7) have full: "nextIndex ?p = length entries" by simp
    have "awaited {} ?p = {}"
      using all by (fastforce simp: awaited_def dest: nth_mem)
    with inv(6) have "set (settled ?p) = set (invoked ?p)" by simp
    with full inv(3) show ?thesis by simp
  qed
  have bound: "\<forall>c \<in> set (claimed ?p). fst c < length (workers ?p)"
    unfolding inv(1) by (rule inv(4))
  have live: "list_all snd schedule \<longrightarrow>
         (\<exists>more. pool_promise (runUploadWorkers entries concurrency (schedule @ more))
            = Fulfilled)"
    using run_can_finish [of schedule entries concurrency] by blast
  from inv(1) inv(3) inv(2) bound inv(5) fin live show ?thesis by blast
qed

theorem runUploadWorkers_claims_witness:
  "pool_promise (runUploadWorkers five_entries 3 five_schedule) = Fulfilled
   \<and> length (workers (runUploadWorkers five_entries 3 five_schedule)) = 3
   \<and> claimed (runUploadWorkers five_entries 3 five_schedule)
       = [(0, 0), (1, 1), (2, 2), (1, 3), (0, 4)]
   \<and> settled (runUploadWorkers five_entries 3 five_schedule) = [1, 0, 3, 2, 4]"
proof -
  have run: "runUploadWorkers five_entries 3 five_schedule =
      \<lparr>nextIndex = 5, workers = [Returned, Returned, Returned],
       claimed = [(0, 0), (1, 1), (2, 2), (1, 3), (0, 4)], invoked = [0, 1, 2, 3, 4],
       settled = [1, 0, 3, 2, 4]\<rparr>"
    by code_simp
  show ?thesis
    using runUploadWorkers_claims [of five_entries 3 five_schedule]
    by (simp add: run pool_promise_def)
qed

section \<open>Progress 100 and the status\<close>

lemma step_phase:
  "in_phase ph item \<Longrightarrow> accepts ph (u # rest) \<Longrightarrow>
   \<exists>ph'. in_phase ph' (apply_updater u item) \<and> accepts ph' rest"
proof -
  assume ph: "in_phase ph item" and acc: "accepts ph (u # rest)"
  show ?thesis
  proof (cases u)
    case ToSigning
    with ph acc have "in_phase Signed (apply_updater u item) \<and> accepts Signed rest"
      by (cases ph) simp_all
    then show ?thesis by (rule exI)
  next
    case (ToUploading g)
    with ph acc have "in_phase Transferring (apply_updater u item) \<and> accepts Transferring rest"
      by (cases ph) simp_all
    then show ?thesis by (rule exI)
  next
    case (OnProgress p)
    show ?thesis
    proof (cases "ph = Transferring \<and> p \<noteq> 100")
      case True
      with ph acc OnProgress
      have "in_phase Transferring (apply_updater u item) \<and> accepts Transferring rest"
        by simp
      then show ?thesis by (rule exI)
    next
      case False
      with ph acc OnProgress
      have "in_phase (if ph = Over then Over else Confirmed) (apply_updater u item)
          \<and> accepts (if ph = Over then Over else Confirmed) rest"
        by (cases ph) (simp_all add: full_only_when_sent_def)
      then show ?thesis by (rule exI)
    qed
  next
    case (ToSuccess g)
    with ph acc have "in_phase Over (apply_updater u item) \<and> accepts Over rest"
      by (cases ph) (simp_all add: full_only_when_sent_def)
    then show ?thesis by (rule exI)
  next
    case (ToError m)
    with ph acc have "in_phase Over (apply_updater u item) \<and> accepts Over rest"
      by (cases ph) (simp_all add: full_only_when_sent_def)
    then show ?thesis by (rule exI)
  qed
qed

lemma coherent_step:
  "coherent item (u # rest) \<Longrightarrow> coherent (apply_updater u item) rest"
  unfolding coherent_def using step_phase by blast

lemma run_shape:
  "\<exists>seen. (\<forall>p \<in> set seen. p < 100)
     \<and> reported (uploadFileDirectToGcs f g env) =
         seen @ (if outcome (uploadFileDirectToGcs f g env) = Inr () then [100] else [])
     \<and> (\<forall>p \<in> set (late (uploadFileDirectToGcs f g env)). p < 100)"
proof -
  let ?run = "uploadFileDirectToGcs f g env"
  let ?goal = "\<exists>seen. (\<forall>p \<in> set seen. p < 100)
     \<and> reported ?run = seen @ (if outcome ?run = Inr () then [100] else [])
     \<and> (\<forall>p \<in> set (late ?run). p < 100)"
  have direct: ?goal
    if "reported ?run = (if outcome ?run = Inr () then [100] else [])" "late ?run = []"
  proof -
    have "(\<forall>p \<in> set []. p < (100 :: int))
     \<and> reported ?run = [] @ (if outcome ?run = Inr () then [100] else [])
     \<and> (\<forall>p \<in> set (late ?run). p < 100)"
      using that by simp
    then show ?thesis by (rule exI)
  qed
  show ?thesis
  proof (cases "get_prop g ''headers''")
    case (Inl e)
    then show ?thesis by (intro direct) (simp_all add: uploadFileDirectToGcs_def)
  next
    case (Inr init)
    show ?thesis
    proof (cases "Headers_init init")
      case (Some e)
      with Inr show ?thesis by (intro direct) (simp_all add: uploadFileDirectToGcs_def)
    next
      case None
      show ?thesis
      proof (cases "file_size f = 0 \<or> \<not> file_has_stream f")
        case True
        with Inr None show ?thesis
          by (intro direct)
            (auto simp: uploadFileDirectToGcs_def split: fetch_result.splits)
      next
        case False
        then have size: "file_size f \<noteq> 0" and str: "file_has_stream f" by simp_all
        let ?seen = "pull (file_size f) 0 (chunks env)"
        let ?n = "read_early env
                 + (case streamed_fetch env of
                      FetchThrows e \<Rightarrow> read_during_fallback env
                    | FetchResponse r \<Rightarrow> 0)"
        note run = streamed_run [OF size str Inr None, of env]
        have below: "\<forall>p \<in> set ?seen. p < 100"
          using pull_range [of _ "file_size f" 0 "chunks env"] by fastforce
        have "(\<forall>p \<in> set (take ?n ?seen). p < 100)
          \<and> reported ?run = take ?n ?seen @ (if outcome ?run = Inr () then [100] else [])
          \<and> (\<forall>p \<in> set (late ?run). p < 100)"
          using below run(1) run(2) by (auto dest: in_set_takeD in_set_dropD)
        then show ?thesis by (rule exI)
      qed
    qed
  qed
qed

lemma accepts_over: "\<forall>p \<in> set ys. p < 100 \<Longrightarrow> accepts Over (map OnProgress ys)"
  by (induction ys) simp_all

lemma accepts_confirmed:
  "\<forall>p \<in> set xs. p < 100 \<Longrightarrow> \<forall>p \<in> set ys. p < 100 \<Longrightarrow>
   accepts Confirmed (map OnProgress xs @ ToSuccess g # map OnProgress ys)"
  by (induction xs) (simp_all add: accepts_over)

lemma accepts_progress_error:
  "\<forall>p \<in> set xs. p < 100 \<Longrightarrow> \<forall>p \<in> set ys. p < 100 \<Longrightarrow>
   accepts Transferring (map OnProgress xs @ ToError m # map OnProgress ys)"
  by (induction xs) (simp_all add: accepts_over)

lemma accepts_progress_success:
  "\<forall>p \<in> set seen. p < 100 \<Longrightarrow> \<forall>p \<in> set xs. p < 100 \<Longrightarrow> \<forall>p \<in> set ys. p < 100 \<Longrightarrow>
   accepts Transferring
     (map OnProgress seen @ OnProgress 100 # map OnProgress xs @ ToSuccess g # map OnProgress ys)"
  by (induction seen) (simp_all add: accepts_confirmed)

lemma uploadSingle_accepted: "accepts Fresh (fst (uploadSingle item header env))"
proof (cases "requestSignedUrl (item_file item) header (grant_fetch env)")
  case (Inl e)
  then show ?thesis by (simp add: uploadSingle_def try_block_def stale_updates_def)
next
  case (Inr g)
  let ?run = "uploadFileDirectToGcs (item_file item) g (transfer env)"
  let ?n = "read_before_update (transfer env)"
  obtain seen where seen: "\<forall>p \<in> set seen. p < 100"
    and rep: "reported ?run = seen @ (if outcome ?run = Inr () then [100] else [])"
    and lat: "\<forall>p \<in> set (late ?run). p < 100"
    using run_shape by blast
  from lat have waiting: "\<forall>p \<in> set (take ?n (late ?run)). p < 100"
    and stale: "\<forall>p \<in> set (drop ?n (late ?run)). p < 100"
    by (auto dest: in_set_takeD in_set_dropD)
  show ?thesis
  proof (cases "outcome ?run")
    case (Inl e)
    with rep have r: "reported ?run = seen" by simp
    from seen waiting have "\<forall>p \<in> set (seen @ take ?n (late ?run)). p < 100" by auto
    from accepts_progress_error [OF this stale, of "message_of e"]
    show ?thesis using Inr Inl r
      by (simp add: uploadSingle_def try_block_def stale_updates_def Let_def)
  next
    case (Inr u)
    with rep have r: "reported ?run = seen @ [100]" by simp
    from accepts_progress_success [OF seen waiting stale, of g]
    show ?thesis
      using \<open>requestSignedUrl (item_file item) header (grant_fetch env) = Inr g\<close> Inr r
      by (simp add: uploadSingle_def try_block_def stale_updates_def Let_def)
  qed
qed

lemma apply_updater_id [simp]: "item_id (apply_updater u item) = item_id item"
  by (cases u) simp_all

lemma sys_invI:
  assumes "distinct (map fst (pending s))" and "distinct (map item_id (items (hook s)))"
    and "\<And>item. item \<in> set (items (hook s)) \<Longrightarrow>
           \<exists>rest. (item_id item, rest) \<in> set (pending s) \<and> coherent item rest"
  shows "sys_inv s"
  unfolding sys_inv_def using assms by blast

lemma sys_invD:
  assumes "sys_inv s"
  shows "distinct (map fst (pending s))" and "distinct (map item_id (items (hook s)))"
    and "\<And>item. item \<in> set (items (hook s)) \<Longrightarrow>
           \<exists>rest. (item_id item, rest) \<in> set (pending s) \<and> coherent item rest"
  using assms unfolding sys_inv_def by blast+

lemma inv_filter:
  assumes "sys_inv s" and "items h = filter P (items (hook s))"
  shows "sys_inv (s\<lparr>hook := h\<rparr>)"
proof (rule sys_invI)
  note inv = sys_invD [OF assms(1)]
  show "distinct (map fst (pending (s\<lparr>hook := h\<rparr>)))" using inv(1) by simp
  show "distinct (map item_id (items (hook (s\<lparr>hook := h\<rparr>))))"
    using inv(2) assms(2) by (simp add: distinct_map_filter)
  show "\<exists>rest. (item_id item, rest) \<in> set (pending (s\<lparr>hook := h\<rparr>)) \<and> coherent item rest"
    if "item \<in> set (items (hook (s\<lparr>hook := h\<rparr>)))" for item
    using that inv(3) [of item] assms(2) by simp
qed

lemma inv_deliver:
  assumes inv: "sys_inv s" and k: "k < length (pending s)" and at: "pending s ! k = (i, u # rest)"
  shows "sys_inv \<lparr>hook = (hook s)\<lparr>items := updateItem i (apply_updater u) (items (hook s))\<rparr>,
                  pending = (pending s)[k := (i, rest)], crashed = False\<rparr>"
proof (rule sys_invI)
  note d = sys_invD [OF inv]
  have keys: "map fst ((pending s)[k := (i, rest)]) = map fst (pending s)"
    using k at by (simp add: map_update list_update_same_conv)
  show "distinct (map fst (pending \<lparr>hook = (hook s)\<lparr>items := updateItem i (apply_updater u) (items (hook s))\<rparr>,
                  pending = (pending s)[k := (i, rest)], crashed = False\<rparr>))"
    using d(1) keys by simp
  have ids: "map item_id (updateItem i (apply_updater u) (items (hook s))) = map item_id (items (hook s))"
    by (simp add: updateItem_def)
  show "distinct (map item_id (items (hook \<lparr>hook = (hook s)\<lparr>items := updateItem i (apply_updater u) (items (hook s))\<rparr>,
                  pending = (pending s)[k := (i, rest)], crashed = False\<rparr>)))"
    using d(2) ids by simp
  show "\<exists>rest'. (item_id item', rest') \<in> set (pending \<lparr>hook = (hook s)\<lparr>items := updateItem i (apply_updater u) (items (hook s))\<rparr>,
                  pending = (pending s)[k := (i, rest)], crashed = False\<rparr>) \<and> coherent item' rest'"
    if mem: "item' \<in> set (items (hook \<lparr>hook = (hook s)\<lparr>items := updateItem i (apply_updater u) (items (hook s))\<rparr>,
                  pending = (pending s)[k := (i, rest)], crashed = False\<rparr>))" for item'
  proof -
    from mem obtain item where item: "item \<in> set (items (hook s))"
      and eq: "item' = (if item_id item = i then apply_updater u item else item)"
      by (auto simp: updateItem_def)
    from d(3) [OF item] obtain rest0 where r0: "(item_id item, rest0) \<in> set (pending s)"
      and co: "coherent item rest0" by blast
    show ?thesis
    proof (cases "item_id item = i")
      case True
      have "(i, u # rest) \<in> set (pending s)" using k at by (metis nth_mem)
      with r0 True d(1) have "rest0 = u # rest"
        by (metis eq_key_imp_eq_value)
      with co have "coherent (apply_updater u item) rest" by (simp add: coherent_step)
      moreover have "(i, rest) \<in> set ((pending s)[k := (i, rest)])"
        using k by (simp add: set_update_memI)
      ultimately show ?thesis using True eq by auto
    next
      case False
      from r0 obtain j where j: "j < length (pending s)" "pending s ! j = (item_id item, rest0)"
        by (auto simp: in_set_conv_nth)
      with at False have "j \<noteq> k" by auto
      with j have "(pending s)[k := (i, rest)] ! j = (item_id item, rest0)" by simp
      with j(1) have "(item_id item, rest0) \<in> set ((pending s)[k := (i, rest)])"
        by (metis length_list_update nth_mem)
      with co False eq show ?thesis by auto
    qed
  qed
qed

lemma addFiles_items_all:
  "items (fst (addFiles h inputFiles)) = map new_item inputFiles @ items h"
  by (simp add: addFiles_def Let_def)

lemma script_of_key: "map (fst \<circ> script_of header) batch = map (\<lambda>(f, i, url, env). i) batch"
  by (induction batch) (auto simp: script_of_def)

lemma new_item_key:
  "map (item_id \<circ> (new_item \<circ> (\<lambda>(f, i, url, env). (f, i, url)))) batch
     = map (\<lambda>(f, i, url, env). i) batch"
  by (induction batch) (auto simp: new_item_def)

lemma new_item_coherent:
  "coherent (new_item (f, i, url)) (fst (uploadSingle (new_item (f, i, url)) header env))"
  unfolding coherent_def
  by (intro exI [of _ Fresh]) (simp add: uploadSingle_accepted new_item_def)

lemma inv_add:
  assumes inv: "sys_inv s"
    and fresh: "distinct (map (\<lambda>(f, i, url, env). i) batch)"
      "set (map (\<lambda>(f, i, url, env). i) batch) \<inter> set (map fst (pending s)) = {}"
  shows "sys_inv \<lparr>hook = fst (addFiles (hook s) (map (\<lambda>(f, i, url, env). (f, i, url)) batch)),
                  pending = pending s @ map (script_of header) batch, crashed = False\<rparr>"
proof (rule sys_invI)
  note d = sys_invD [OF inv]
  let ?ids = "map (\<lambda>(f, i, url, env). i) batch"
  let ?s' = "\<lparr>hook = fst (addFiles (hook s) (map (\<lambda>(f, i, url, env). (f, i, url)) batch)),
                  pending = pending s @ map (script_of header) batch, crashed = False\<rparr>"
  have old_ids: "set (map item_id (items (hook s))) \<subseteq> set (map fst (pending s))"
  proof
    fix x assume "x \<in> set (map item_id (items (hook s)))"
    then obtain item where "item \<in> set (items (hook s))" "x = item_id item" by auto
    with d(3) [of item] show "x \<in> set (map fst (pending s))" by force
  qed
  show "distinct (map fst (pending ?s'))"
    using d(1) fresh by (auto simp: script_of_key)
  have its: "items (hook ?s') = map new_item (map (\<lambda>(f, i, url, env). (f, i, url)) batch) @ items (hook s)"
    by (simp add: addFiles_items_all)
  have "set ?ids \<inter> set (map item_id (items (hook s))) = {}"
    using fresh(2) old_ids by blast
  then show "distinct (map item_id (items (hook ?s')))"
    unfolding its using d(2) fresh(1) by (simp add: new_item_key)
  show "\<exists>rest. (item_id item, rest) \<in> set (pending ?s') \<and> coherent item rest"
    if "item \<in> set (items (hook ?s'))" for item
  proof -
    from that its consider
      (new) b where "b \<in> set batch" "item = new_item ((\<lambda>(f, i, url, env). (f, i, url)) b)"
      | (old) "item \<in> set (items (hook s))"
      by auto
    then show ?thesis
    proof cases
      case new
      obtain f i url env where b: "b = (f, i, url, env)" by (cases b) auto
      with new have item: "item = new_item (f, i, url)" by simp
      have "script_of header b \<in> set (map (script_of header) batch)" using new(1) by simp
      then have "(i, fst (uploadSingle (new_item (f, i, url)) header env)) \<in> set (pending ?s')"
        by (simp add: script_of_def b)
      moreover have "item_id item = i" by (simp add: item new_item_def)
      ultimately have "(item_id item, fst (uploadSingle (new_item (f, i, url)) header env))
            \<in> set (pending ?s')
          \<and> coherent item (fst (uploadSingle (new_item (f, i, url)) header env))"
        using new_item_coherent [of f i url header env] item by simp
      then show ?thesis by (rule exI)
    next
      case old
      from d(3) [OF old] show ?thesis by auto
    qed
  qed
qed

lemma inv_crash: "sys_inv s \<Longrightarrow> sys_inv (s\<lparr>crashed := b\<rparr>)"
  by (simp add: sys_inv_def)

lemma sys_step_inv:
  assumes inv: "sys_inv s"
  shows "sys_inv (sys_step header s ev)"
proof (cases "crashed s")
  case True
  with inv show ?thesis by (simp add: sys_step_def)
next
  case running: False
  show ?thesis
  proof (cases ev)
    case (AddFiles batch)
    with inv running show ?thesis using inv_add [of s batch header]
      by (simp add: sys_step_def Let_def)
  next
    case (Deliver k)
    show ?thesis
    proof (cases "k < length (pending s)")
      case False
      with inv running Deliver show ?thesis by (simp add: sys_step_def)
    next
      case True
      obtain i us where at: "pending s ! k = (i, us)" by (cases "pending s ! k") auto
      show ?thesis
      proof (cases us)
        case Nil
        with inv running Deliver True at show ?thesis by (simp add: sys_step_def)
      next
        case (Cons u rest)
        with inv_deliver [OF inv True, of i u rest] inv_crash [OF inv, of True]
          running Deliver True at
        show ?thesis by (simp add: sys_step_def)
      qed
    qed
  next
    case (RemoveItem i)
    with inv running show ?thesis using inv_filter [of s "removeItem (hook s) i"]
      by (simp add: sys_step_def items_removeItem)
  next
    case ClearFinished
    with inv running show ?thesis
      using inv_filter [of s "clearFinished (hook s)"
          "\<lambda>item. status item \<noteq> Success \<and> status item \<noteq> Error"]
      by (simp add: sys_step_def clearFinished_def Let_def)
  qed
qed

lemma run_events_inv: "sys_inv (run_events header evs)"
proof (induction evs rule: rev_induct)
  case Nil
  show ?case by (simp add: run_events_def system_init_def hook_init_def sys_inv_def)
next
  case (snoc ev evs)
  then show ?case by (simp add: run_events_def sys_step_inv)
qed

lemma coherent_full:
  assumes "coherent item rest" and "progress item = 100"
  shows "status item = Uploading \<or> status item = Success"
proof -
  from assms(1) obtain ph where ph: "in_phase ph item" "accepts ph rest"
    unfolding coherent_def by blast
  with assms(2) show ?thesis by (cases ph) (simp_all add: full_only_when_sent_def)
qed

lemma late_script:
  "fst (uploadSingle (new_item (a_png, ''id-1'', ''blob:1'')) ''demo-user-123''
         \<lparr>grant_fetch = grant_of plain_grant, transfer = stream_late\<rparr>)
     = [ToSigning, ToUploading plain_grant, OnProgress 25, OnProgress 100,
        ToSuccess plain_grant, OnProgress 50]"
proof -
  have run: "uploadFileDirectToGcs a_png plain_grant stream_late
       = \<lparr>requests = [StreamedBody], reported = [25, 100], late = [50], outcome = Inr ()\<rparr>"
    by (simp add: plain_grant_headers a_png_def stream_late_def answered_def
        resp_ok_def uploadFileDirectToGcs_def percent_def fl_examples js_round_numeral)
  have wait: "read_before_update stream_late = 0"
    by (simp add: stream_late_def)
  show ?thesis
    by (simp add: uploadSingle_def try_block_def stale_updates_def requestSignedUrl_def
        grant_of_def resp_ok_def new_item_def run wait)
qed

lemma late_pending:
  "run_events ''demo-user-123'' [AddFiles [(a_png, ''id-1'', ''blob:1'',
        \<lparr>grant_fetch = grant_of plain_grant, transfer = stream_late\<rparr>)]]
   = \<lparr>hook = fst (addFiles hook_init [(a_png, ''id-1'', ''blob:1'')]),
      pending = [(''id-1'', [ToSigning, ToUploading plain_grant, OnProgress 25, OnProgress 100,
        ToSuccess plain_grant, OnProgress 50])], crashed = False\<rparr>"
  by (simp add: run_events_def system_init_def sys_step_def script_of_def late_script)

lemma plain_grant_not_null: "plain_grant \<noteq> JNull"
  by (simp add: plain_grant_def)

lemma deliver_first:
  "\<not> crashed s \<Longrightarrow> pending s = (i, u # rest) # ps \<Longrightarrow> \<not> throws_on u \<Longrightarrow>
   sys_step header s (Deliver 0) =
     \<lparr>hook = (hook s)\<lparr>items := updateItem i (apply_updater u) (items (hook s))\<rparr>,
      pending = (i, rest) # ps, crashed = False\<rparr>"
  by (simp add: sys_step_def)

lemma late_run:
  "map (\<lambda>item. (progress item, status item))
       (items (hook (run_events ''demo-user-123'' late_upload))) = [(100, Success)]
   \<and> map (\<lambda>item. (progress item, status item))
       (items (hook (run_events ''demo-user-123'' (late_upload @ [Deliver 0])))) = [(50, Uploading)]"
proof -
  let ?start = "run_events ''demo-user-123'' [AddFiles [(a_png, ''id-1'', ''blob:1'',
        \<lparr>grant_fetch = grant_of plain_grant, transfer = stream_late\<rparr>)]]"
  have a: "run_events ''demo-user-123'' late_upload =
      foldl (sys_step ''demo-user-123'') ?start [Deliver 0, Deliver 0, Deliver 0, Deliver 0, Deliver 0]"
    and b: "run_events ''demo-user-123'' (late_upload @ [Deliver 0]) =
      foldl (sys_step ''demo-user-123'') ?start
        [Deliver 0, Deliver 0, Deliver 0, Deliver 0, Deliver 0, Deliver 0]"
    by (simp_all add: run_events_def late_upload_def)
  show ?thesis
    unfolding a b late_pending
    by (simp add: deliver_first plain_grant_not_null addFiles_def Let_def hook_init_def
        new_item_def updateItem_def)
qed

text \<open>
  Claim C1, as the code has it. In every state the queue can reach, by enqueueing
  batches, by the keyed updates of the uploads and of their progress callbacks in any
  interleaving, by removing items and by clearing finished ones, an item whose progress
  is 100 has status \<open>Uploading\<close> or \<open>Success\<close>: never \<open>Queued\<close>, \<open>Signing\<close> or \<open>Error\<close>.
\<close>

theorem full_progress_status:
  assumes "item \<in> set (items (hook (run_events header evs)))" and "progress item = 100"
  shows "status item = Uploading \<or> status item = Success"
proof -
  from sys_invD(3) [OF run_events_inv assms(1)] obtain rest
    where "coherent item rest"
    by blast
  from coherent_full [OF this assms(2)] show ?thesis .
qed

theorem full_progress_status_witness:
  "map (\<lambda>item. (progress item, status item))
     (items (hook (run_events ''demo-user-123'' (empty_upload @ [Deliver 0])))) = [(100, Success)]
   \<and> map (\<lambda>item. (progress item, status item))
       (items (hook (run_events ''demo-user-123'' late_upload))) = [(100, Success)]
   \<and> map (\<lambda>item. (progress item, status item))
       (items (hook (run_events ''demo-user-123'' (late_upload @ [Deliver 0])))) = [(50, Uploading)]
   \<and> crashed (run_events ''demo-user-123'' null_grant_upload)"
proof -
  have run: "map (\<lambda>item. (progress item, status item))
      (items (hook (run_events ''demo-user-123'' (empty_upload @ [Deliver 0])))) = [(100, Success)]"
    by code_simp
  then obtain item where item: "items (hook (run_events ''demo-user-123'' (empty_upload @ [Deliver 0]))) = [item]"
    and p: "progress item = 100"
    by auto
  have null: "crashed (run_events ''demo-user-123'' null_grant_upload)"
    by code_simp
  from full_progress_status [of item "''demo-user-123''" "empty_upload @ [Deliver 0]"] item p run
    null late_run
  show ?thesis by simp
qed

text \<open>
  The claim as stated allows \<open>Success\<close> only. An empty file goes the whole-file way:
  after the grant and a successful request the transfer calls \<^verbatim>\<open>onProgress(100)\<close>, whose
  update sets the status to \<open>Uploading\<close> and the progress to 100; the update to \<open>Success\<close>
  comes after it. Between the two the queue holds an item with progress 100 and status
  \<open>Uploading\<close>.
\<close>

theorem full_progress_not_success_counterexample:
  "map (\<lambda>item. (progress item, status item))
     (items (hook (run_events ''demo-user-123'' empty_upload))) = [(100, Uploading)]"
  by code_simp

end
